theory Spec2Isabelle
  imports Main
begin

section \<open>The ring buffer of \<^verbatim>\<open>src/ringbuffer.c\<close>\<close>

text \<open>
  The buffer stores values of the C type \<^verbatim>\<open>json_t *\<close>. Such a value is the null pointer,
  a pointer to a JSON value (named by an element of \<open>'a\<close>), or the indeterminate content
  of a slot of freshly allocated storage that nothing has been written to yet. The code
  only ever copies these values and hands them to \<^verbatim>\<open>json_decref\<close>; it never looks
  inside them.
\<close>

datatype 'a json_ptr = NULL | Ptr 'a | Indeterminate

text \<open>
  \<^verbatim>\<open>typedef struct ringbuffer { size_t buffer_size; size_t start; size_t elementCount;
  json_t **buffer; } ringbuffer_t;\<close>
  The field \<open>buffer\<close> is \<open>None\<close> for the null pointer and \<open>Some xs\<close> for a block
  obtained from the allocator whose slots hold \<open>xs\<close>.
\<close>

record 'a ringbuffer_t =
  buffer_size :: nat
  start :: nat
  elementCount :: nat
  buffer :: "'a json_ptr list option"

text \<open>
  A C function either returns, or it does something the C standard leaves undefined:
  an access outside the allocated block, a dereference of the null pointer, or a
  remainder by zero. The second case is the value \<open>Undefined\<close>. A function that
  contains a loop which may run forever has the result type \<open>_ outcome option\<close>, where
  \<open>None\<close> stands for a call that never returns.
\<close>

datatype 'r outcome = Return 'r | Undefined

subsection \<open>Sizes\<close>

text \<open>
  Values of type \<^verbatim>\<open>size_t\<close> are natural numbers, and \<^verbatim>\<open>size_t\<close> has 64 bits. Where
  the code subtracts a value that can be the larger one, the result wraps around modulo
  \<open>2 ^ 64\<close>: \<open>size_sub\<close>. The two products that grow with the buffer wrap around as well:
  the doubling \<^verbatim>\<open>buffer_size * 2\<close> of \<^verbatim>\<open>ringbuffer_insert\<close>, and the byte counts
  \<^verbatim>\<open>newSize * sizeof(json_t *)\<close> and \<^verbatim>\<open>buffer_size * sizeof(json_t *)\<close> that
  \<^verbatim>\<open>ringbuffer_resize\<close> hands to the allocator: \<open>size_mul\<close>. A pointer takes 8 bytes.

  The sums of the code (\<^verbatim>\<open>start + index\<close>, \<^verbatim>\<open>elementCount++\<close> and the like) are left
  exact, and \<^verbatim>\<open>memmove\<close> is given its count in slots instead of bytes. A block of \<open>n\<close>
  slots takes \<open>8 * n\<close> of the \<open>2 ^ 64\<close> bytes that can be addressed, so a block has fewer
  than \<open>2 ^ 61\<close> slots; \<open>start\<close>, the count and every index in range are at most the
  largest capacity the buffer has had, and no \<^verbatim>\<open>memmove\<close> of the code is asked for more
  slots than the buffer has elements or had slots when the call began. None of these
  reaches \<open>2 ^ 61\<close>, where the byte count of a \<^verbatim>\<open>memmove\<close> would wrap around, let alone
  \<open>2 ^ 64\<close>.
\<close>

definition SIZE_MAX :: nat where
  "SIZE_MAX = 2 ^ 64 - 1"

definition size_sub :: "nat \<Rightarrow> nat \<Rightarrow> nat" where
  "size_sub a b = (if b \<le> a then a - b else a + (SIZE_MAX + 1) - b)"

definition size_mul :: "nat \<Rightarrow> nat \<Rightarrow> nat" where
  "size_mul a b = (a * b) mod (SIZE_MAX + 1)"

definition sizeof_json_ptr :: nat where
  "sizeof_json_ptr = 8"

definition RINGBUFFER_MIN_BUFFER_SIZE :: nat where
  "RINGBUFFER_MIN_BUFFER_SIZE = 8"

subsection \<open>Storage\<close>

text \<open>
  Reading and writing one slot, and \<^verbatim>\<open>memmove\<close> of \<open>n\<close> slots inside one block. The
  positions are slot offsets from the start of the block. \<^verbatim>\<open>memmove\<close> copies as if
  through a temporary array, so overlapping ranges are fine; ranges that leave the block
  are not.
\<close>

definition slot_read :: "'a json_ptr list option \<Rightarrow> nat \<Rightarrow> 'a json_ptr outcome" where
  "slot_read b i =
     (case b of
        None \<Rightarrow> Undefined
      | Some xs \<Rightarrow> if i < length xs then Return (xs ! i) else Undefined)"

definition slot_write ::
  "'a json_ptr list option \<Rightarrow> nat \<Rightarrow> 'a json_ptr \<Rightarrow> 'a json_ptr list option outcome" where
  "slot_write b i v =
     (case b of
        None \<Rightarrow> Undefined
      | Some xs \<Rightarrow> if i < length xs then Return (Some (xs[i := v])) else Undefined)"

definition memmove ::
  "'a json_ptr list option \<Rightarrow> nat \<Rightarrow> nat \<Rightarrow> nat \<Rightarrow> 'a json_ptr list option outcome" where
  "memmove b dst src n =
     (case b of
        None \<Rightarrow> Undefined
      | Some xs \<Rightarrow>
          if src + n \<le> length xs \<and> dst + n \<le> length xs
          then Return (Some (take dst xs @ take n (drop src xs) @ drop (dst + n) xs))
          else Undefined)"

text \<open>
  Modelled from the spec: the allocator (\<^verbatim>\<open>jsonp_malloc\<close>, \<^verbatim>\<open>jsonp_realloc\<close>,
  \<^verbatim>\<open>jsonp_free\<close>) is not part of the sources at hand. Each request may fail, and a
  failed request leaves the old block as it was. An allocator is the sequence of its
  answers to the requests still to come: \<open>a 0\<close> tells whether the next request succeeds.
  Sizes are counted in bytes, as the spec has it: a granted request for \<open>n\<close> bytes gives
  a block of \<open>n div 8\<close> slots, whatever \<open>n\<close> is. A new block holds indeterminate slots; a
  resized block keeps the slots that fit and gets indeterminate ones for the rest.
\<close>

type_synonym allocator = "nat \<Rightarrow> bool"

definition jsonp_malloc :: "allocator \<Rightarrow> nat \<Rightarrow> 'a json_ptr list option \<times> allocator" where
  "jsonp_malloc a newSize =
     (if a 0 then Some (replicate (newSize div sizeof_json_ptr) Indeterminate) else None,
      \<lambda>k. a (Suc k))"

definition jsonp_realloc ::
  "allocator \<Rightarrow> 'a json_ptr list \<Rightarrow> nat \<Rightarrow> nat \<Rightarrow> 'a json_ptr list option \<times> allocator" where
  "jsonp_realloc a xs originalSize newSize =
     (if a 0
      then Some (take (newSize div sizeof_json_ptr) xs @
                 replicate (newSize div sizeof_json_ptr - length xs) Indeterminate)
      else None,
      \<lambda>k. a (Suc k))"

subsection \<open>Initialisation and element access\<close>

definition ringbuffer_init :: "'a ringbuffer_t \<Rightarrow> 'a ringbuffer_t" where
  "ringbuffer_init ringbuffer =
     ringbuffer\<lparr>buffer_size := 0, start := 0, elementCount := 0, buffer := None\<rparr>"

text \<open>
  \<^verbatim>\<open>ringbuffer_get\<close> returns the null pointer for an index that is out of range.
\<close>

definition ringbuffer_get :: "'a ringbuffer_t \<Rightarrow> nat \<Rightarrow> 'a json_ptr outcome" where
  "ringbuffer_get ringbuffer index =
     (if index \<ge> elementCount ringbuffer then Return NULL
      else if buffer_size ringbuffer = 0 then Undefined
      else slot_read (buffer ringbuffer)
             ((start ringbuffer + index) mod buffer_size ringbuffer))"

text \<open>
  \<^verbatim>\<open>ringbuffer_set\<close> returns its status, the buffer, and the pointers it has handed to
  \<^verbatim>\<open>json_decref\<close>, in order.
\<close>

definition ringbuffer_set ::
  "'a ringbuffer_t \<Rightarrow> nat \<Rightarrow> 'a json_ptr \<Rightarrow> (int \<times> 'a ringbuffer_t \<times> 'a json_ptr list) outcome" where
  "ringbuffer_set ringbuffer index val =
     (if index \<ge> elementCount ringbuffer then Return (- 1, ringbuffer, [])
      else if buffer_size ringbuffer = 0 then Undefined
      else
        let j = (start ringbuffer + index) mod buffer_size ringbuffer in
        case slot_read (buffer ringbuffer) j of
          Undefined \<Rightarrow> Undefined
        | Return old \<Rightarrow>
            (case slot_write (buffer ringbuffer) j val of
               Undefined \<Rightarrow> Undefined
             | Return b \<Rightarrow> Return (0, ringbuffer\<lparr>buffer := b\<rparr>, [old])))"

subsection \<open>Moving a range of elements\<close>

text \<open>
  The two \<^verbatim>\<open>do ... while (count)\<close> loops of \<^verbatim>\<open>ringbuffer_move\<close>. \<open>posRead\<close> and
  \<open>posWrite\<close> are the offsets of the two pointers from \<^verbatim>\<open>buffer\<close>; \<^verbatim>\<open>endOfBuffer\<close> is the
  offset \<open>buffer_size\<close> and \<^verbatim>\<open>startOfBuffer\<close> the offset \<open>0\<close>. \<open>forward_step\<close> and
  \<open>backward_step\<close> are the bodies of the loops: they return the buffer, the two
  pointers and \<open>count\<close> as the body leaves them. The body runs once before \<open>count\<close> is
  tested.
\<close>

definition forward_step ::
  "'a ringbuffer_t \<Rightarrow> nat \<Rightarrow> nat \<Rightarrow> nat \<Rightarrow> ('a ringbuffer_t \<times> nat \<times> nat \<times> nat) outcome" where
  "forward_step ringbuffer posRead posWrite count =
     (let read_count = buffer_size ringbuffer - posRead;
          write_count = buffer_size ringbuffer - posWrite;
          resulting_count = min (min read_count write_count) count
      in case memmove (buffer ringbuffer) posWrite posRead resulting_count of
           Undefined \<Rightarrow> Undefined
         | Return b \<Rightarrow>
             (let posWrite1 = posWrite + resulting_count;
                  posRead1 = posRead + resulting_count
              in Return
                   (ringbuffer\<lparr>buffer := b\<rparr>,
                    if posRead1 = buffer_size ringbuffer
                    then start ringbuffer mod buffer_size ringbuffer else posRead1,
                    if posWrite1 = buffer_size ringbuffer
                    then start ringbuffer mod buffer_size ringbuffer else posWrite1,
                    count - resulting_count)))"

definition backward_step ::
  "'a ringbuffer_t \<Rightarrow> nat \<Rightarrow> nat \<Rightarrow> nat \<Rightarrow> ('a ringbuffer_t \<times> nat \<times> nat \<times> nat) outcome" where
  "backward_step ringbuffer posRead posWrite count =
     (let read_count = posRead;
          write_count = posWrite;
          resulting_count = min (min read_count write_count) count
      in case memmove (buffer ringbuffer) posWrite posRead resulting_count of
           Undefined \<Rightarrow> Undefined
         | Return b \<Rightarrow>
             (let posWrite1 = posWrite - resulting_count;
                  posRead1 = posRead - resulting_count
              in Return
                   (ringbuffer\<lparr>buffer := b\<rparr>,
                    if posRead1 = 0
                    then (start ringbuffer + buffer_size ringbuffer - 1)
                           mod buffer_size ringbuffer
                    else posRead1,
                    if posWrite1 = 0
                    then (start ringbuffer + buffer_size ringbuffer - 1)
                           mod buffer_size ringbuffer
                    else posWrite1,
                    count - resulting_count)))"

partial_function (option) move_forward ::
  "'a ringbuffer_t \<Rightarrow> nat \<Rightarrow> nat \<Rightarrow> nat \<Rightarrow> 'a ringbuffer_t outcome option" where
  "move_forward ringbuffer posRead posWrite count =
     (case forward_step ringbuffer posRead posWrite count of
        Undefined \<Rightarrow> Some Undefined
      | Return (ringbuffer1, posRead1, posWrite1, count1) \<Rightarrow>
          if count1 \<noteq> 0 then move_forward ringbuffer1 posRead1 posWrite1 count1
          else Some (Return ringbuffer1))"

partial_function (option) move_backward ::
  "'a ringbuffer_t \<Rightarrow> nat \<Rightarrow> nat \<Rightarrow> nat \<Rightarrow> 'a ringbuffer_t outcome option" where
  "move_backward ringbuffer posRead posWrite count =
     (case backward_step ringbuffer posRead posWrite count of
        Undefined \<Rightarrow> Some Undefined
      | Return (ringbuffer1, posRead1, posWrite1, count1) \<Rightarrow>
          if count1 \<noteq> 0 then move_backward ringbuffer1 posRead1 posWrite1 count1
          else Some (Return ringbuffer1))"

declare move_forward.simps [code]
declare move_backward.simps [code]

text \<open>
  \<^verbatim>\<open>ringbuffer_move\<close> is static. Its two callers pass \<open>count \<ge> 1\<close> whenever
  \<open>dest \<ge> src\<close>, so \<^verbatim>\<open>count - 1\<close> does not wrap there.
\<close>

definition ringbuffer_move ::
  "'a ringbuffer_t \<Rightarrow> nat \<Rightarrow> nat \<Rightarrow> nat \<Rightarrow> 'a ringbuffer_t outcome option" where
  "ringbuffer_move ringbuffer dest src count =
     (if buffer_size ringbuffer = 0 then Some Undefined
      else if dest < src then
        move_forward ringbuffer
          ((start ringbuffer + src) mod buffer_size ringbuffer)
          ((start ringbuffer + dest) mod buffer_size ringbuffer)
          count
      else
        let dest1 = dest + count - 1;
            src1 = src + count - 1
        in move_backward ringbuffer
             ((start ringbuffer + src1) mod buffer_size ringbuffer)
             ((start ringbuffer + dest1) mod buffer_size ringbuffer)
             count)"

subsection \<open>Sequencing\<close>

text \<open>
  \<open>and_then m f\<close> continues with \<open>f\<close> when the call \<open>m\<close> has returned; a call that does
  not return, or whose behaviour is undefined, ends the whole computation.
\<close>

definition and_then ::
  "'r outcome option \<Rightarrow> ('r \<Rightarrow> 's outcome option) \<Rightarrow> 's outcome option" where
  "and_then m f =
     (case m of
        None \<Rightarrow> None
      | Some Undefined \<Rightarrow> Some Undefined
      | Some (Return x) \<Rightarrow> f x)"

text \<open>The assignment \<^verbatim>\<open>ringbuffer->buffer[i] = value\<close>.\<close>

definition buffer_store :: "'a ringbuffer_t \<Rightarrow> nat \<Rightarrow> 'a json_ptr \<Rightarrow> 'a ringbuffer_t outcome" where
  "buffer_store ringbuffer i val =
     (case slot_write (buffer ringbuffer) i val of
        Undefined \<Rightarrow> Undefined
      | Return b \<Rightarrow> Return (ringbuffer\<lparr>buffer := b\<rparr>))"

subsection \<open>Resizing\<close>

text \<open>
  Lines 153 to 175 of \<^verbatim>\<open>ringbuffer_resize\<close>: what happens to the elements after the
  block has been reallocated to \<open>newSize\<close> slots and before \<open>buffer_size\<close> is updated.
  The pointer \<^verbatim>\<open>buffer + newSize - upperBlockSize\<close> has to stay inside the block. In
  the branch that computes it, \<open>upperBlockSize < lowerBlockSize < buffer_size\<close>, so
  \<^verbatim>\<open>buffer_size - upperBlockSize\<close> does not wrap.
\<close>

definition resize_relocate :: "'a ringbuffer_t \<Rightarrow> nat \<Rightarrow> 'a ringbuffer_t outcome" where
  "resize_relocate ringbuffer newSize =
     (if start ringbuffer > size_sub (buffer_size ringbuffer) (elementCount ringbuffer) then
        if buffer_size ringbuffer = 0 then Undefined
        else
          let upperBlockSize = size_sub (buffer_size ringbuffer) (start ringbuffer);
              lowerBlockSize =
                (start ringbuffer + elementCount ringbuffer) mod buffer_size ringbuffer
          in
            if upperBlockSize < lowerBlockSize then
              if newSize < upperBlockSize then Undefined
              else
                case memmove (buffer ringbuffer) (newSize - upperBlockSize)
                       (buffer_size ringbuffer - upperBlockSize) upperBlockSize of
                  Undefined \<Rightarrow> Undefined
                | Return b \<Rightarrow>
                    Return (ringbuffer\<lparr>buffer := b, start := size_sub newSize upperBlockSize\<rparr>)
            else
              let newSpaceGrowth = size_sub newSize (buffer_size ringbuffer) in
              if lowerBlockSize > newSpaceGrowth then
                case memmove (buffer ringbuffer) (buffer_size ringbuffer) 0 newSpaceGrowth of
                  Undefined \<Rightarrow> Undefined
                | Return b1 \<Rightarrow>
                    (case memmove b1 0 newSpaceGrowth (lowerBlockSize - newSpaceGrowth) of
                       Undefined \<Rightarrow> Undefined
                     | Return b2 \<Rightarrow> Return (ringbuffer\<lparr>buffer := b2\<rparr>))
              else
                case memmove (buffer ringbuffer) (buffer_size ringbuffer) 0 lowerBlockSize of
                  Undefined \<Rightarrow> Undefined
                | Return b \<Rightarrow> Return (ringbuffer\<lparr>buffer := b\<rparr>)
      else Return ringbuffer)"

definition ringbuffer_resize ::
  "allocator \<Rightarrow> 'a ringbuffer_t \<Rightarrow> nat \<Rightarrow> (int \<times> 'a ringbuffer_t \<times> allocator) outcome" where
  "ringbuffer_resize a ringbuffer requested =
     (let newSize = (if requested < RINGBUFFER_MIN_BUFFER_SIZE
                     then RINGBUFFER_MIN_BUFFER_SIZE else requested)
      in
        case buffer ringbuffer of
          None \<Rightarrow>
            (case jsonp_malloc a (size_mul newSize sizeof_json_ptr) of
               (None, a1) \<Rightarrow> Return (- 1, ringbuffer, a1)
             | (Some blk, a1) \<Rightarrow>
                 Return (0, ringbuffer\<lparr>buffer := Some blk, buffer_size := newSize\<rparr>, a1))
        | Some xs \<Rightarrow>
            if newSize < elementCount ringbuffer then Return (- 1, ringbuffer, a)
            else
              (case jsonp_realloc a xs (size_mul (buffer_size ringbuffer) sizeof_json_ptr)
                      (size_mul newSize sizeof_json_ptr) of
                 (None, a1) \<Rightarrow> Return (- 1, ringbuffer, a1)
               | (Some blk, a1) \<Rightarrow>
                   (case resize_relocate (ringbuffer\<lparr>buffer := Some blk\<rparr>) newSize of
                      Undefined \<Rightarrow> Undefined
                    | Return ringbuffer1 \<Rightarrow>
                        Return (0, ringbuffer1\<lparr>buffer_size := newSize\<rparr>, a1))))"

subsection \<open>Insertion\<close>

text \<open>
  Lines 192 to 207 of \<^verbatim>\<open>ringbuffer_insert\<close>: the four ways of placing the value,
  before \<open>elementCount\<close> is incremented.
\<close>

definition insert_place ::
  "'a ringbuffer_t \<Rightarrow> nat \<Rightarrow> 'a json_ptr \<Rightarrow> 'a ringbuffer_t outcome option" where
  "insert_place rb index val =
     (if buffer_size rb = 0 then Some Undefined
      else if index = elementCount rb then
        Some (buffer_store rb ((start rb + elementCount rb) mod buffer_size rb) val)
      else if index = 0 then
        let rb1 = rb\<lparr>start := (start rb + buffer_size rb - 1) mod buffer_size rb\<rparr>
        in Some (buffer_store rb1 (start rb1) val)
      else if index \<le> elementCount rb div 2 then
        let rb1 = rb\<lparr>start := (start rb + buffer_size rb - 1) mod buffer_size rb\<rparr>
        in and_then (ringbuffer_move rb1 0 1 index)
             (\<lambda>rb2. Some (buffer_store rb2 ((start rb2 + index) mod buffer_size rb2) val))
      else
        and_then (ringbuffer_move rb (index + 1) index (elementCount rb - index))
          (\<lambda>rb2. Some (buffer_store rb2 ((start rb2 + index) mod buffer_size rb2) val)))"

definition ringbuffer_insert ::
  "allocator \<Rightarrow> 'a ringbuffer_t \<Rightarrow> nat \<Rightarrow> 'a json_ptr \<Rightarrow>
     (int \<times> 'a ringbuffer_t \<times> allocator) outcome option" where
  "ringbuffer_insert a ringbuffer index val =
     (if index > elementCount ringbuffer then Some (Return (- 1, ringbuffer, a))
      else
        case (if elementCount ringbuffer = buffer_size ringbuffer
              then ringbuffer_resize a ringbuffer (size_mul (buffer_size ringbuffer) 2)
              else Return (0, ringbuffer, a)) of
          Undefined \<Rightarrow> Some Undefined
        | Return (rc, rb, a1) \<Rightarrow>
            if rc \<noteq> 0 then Some (Return (- 1, rb, a1))
            else
              and_then (insert_place rb index val)
                (\<lambda>rb1. Some (Return (0, rb1\<lparr>elementCount := elementCount rb1 + 1\<rparr>, a1))))"

definition ringbuffer_append ::
  "allocator \<Rightarrow> 'a ringbuffer_t \<Rightarrow> 'a json_ptr \<Rightarrow>
     (int \<times> 'a ringbuffer_t \<times> allocator) outcome option" where
  "ringbuffer_append a ringbuffer val =
     ringbuffer_insert a ringbuffer (elementCount ringbuffer) val"

subsection \<open>Deletion\<close>

text \<open>
  Lines 250 to 258 of \<^verbatim>\<open>ringbuffer_del\<close>: closing the gap, before \<open>elementCount\<close> is
  decremented.
\<close>

definition del_shift :: "'a ringbuffer_t \<Rightarrow> nat \<Rightarrow> 'a ringbuffer_t outcome option" where
  "del_shift rb index =
     (if index = elementCount rb - 1 then Some (Return rb)
      else if index = 0 then
        Some (Return (rb\<lparr>start := (start rb + 1) mod buffer_size rb\<rparr>))
      else if index < elementCount rb div 2 then
        and_then (ringbuffer_move rb 1 0 index)
          (\<lambda>rb1. Some (Return (rb1\<lparr>start := (start rb1 + 1) mod buffer_size rb1\<rparr>)))
      else ringbuffer_move rb index (index + 1) (elementCount rb - index))"

text \<open>
  \<^verbatim>\<open>ringbuffer_del\<close> returns its status, the buffer, the allocator, and the pointers it
  has handed to \<^verbatim>\<open>json_decref\<close>. The status of the shrinking resize is dropped, as in
  the code.
\<close>

definition ringbuffer_del ::
  "allocator \<Rightarrow> 'a ringbuffer_t \<Rightarrow> nat \<Rightarrow>
     (int \<times> 'a ringbuffer_t \<times> allocator \<times> 'a json_ptr list) outcome option" where
  "ringbuffer_del a ringbuffer index =
     (if index \<ge> elementCount ringbuffer then Some (Return (- 1, ringbuffer, a, []))
      else if buffer_size ringbuffer = 0 then Some Undefined
      else
        case slot_read (buffer ringbuffer)
               ((start ringbuffer + index) mod buffer_size ringbuffer) of
          Undefined \<Rightarrow> Some Undefined
        | Return released \<Rightarrow>
            and_then (del_shift ringbuffer index)
              (\<lambda>rb.
                 let rb1 = rb\<lparr>elementCount := elementCount rb - 1\<rparr> in
                 if elementCount rb1 < buffer_size rb1 div 8 then
                   case ringbuffer_resize a rb1 (buffer_size rb1 div 2) of
                     Undefined \<Rightarrow> Some Undefined
                   | Return (rc, rb2, a1) \<Rightarrow> Some (Return (0, rb2, a1, [released]))
                 else Some (Return (0, rb1, a, [released]))))"

subsection \<open>Clearing\<close>

text \<open>
  The loop of \<^verbatim>\<open>ringbuffer_clear\<close> collects the pointers handed to \<^verbatim>\<open>json_decref\<close>.
  \<^verbatim>\<open>jsonp_free\<close> cannot fail.
\<close>

function clear_loop :: "'a ringbuffer_t \<Rightarrow> nat \<Rightarrow> 'a json_ptr list outcome" where
  "clear_loop ringbuffer i =
     (if i < elementCount ringbuffer then
        case ringbuffer_get ringbuffer i of
          Undefined \<Rightarrow> Undefined
        | Return v \<Rightarrow>
            (case clear_loop ringbuffer (i + 1) of
               Undefined \<Rightarrow> Undefined
             | Return vs \<Rightarrow> Return (v # vs))
      else Return [])"
  by pat_completeness auto
termination
  by (relation "measure (\<lambda>(ringbuffer, i). elementCount ringbuffer - i)") auto

definition ringbuffer_clear ::
  "'a ringbuffer_t \<Rightarrow> ('a ringbuffer_t \<times> 'a json_ptr list) outcome" where
  "ringbuffer_clear ringbuffer =
     (case clear_loop ringbuffer 0 of
        Undefined \<Rightarrow> Undefined
      | Return released \<Rightarrow>
          Return (ringbuffer\<lparr>buffer := None, buffer_size := 0, elementCount := 0, start := 0\<rparr>,
                  released))"

definition ringbuffer_close ::
  "'a ringbuffer_t \<Rightarrow> ('a ringbuffer_t \<times> 'a json_ptr list) outcome" where
  "ringbuffer_close ringbuffer = ringbuffer_clear ringbuffer"

subsection \<open>Appending another ring buffer\<close>

text \<open>
  \<^verbatim>\<open>ringbuffer_append_ringbuffer\<close> takes two pointers, which may be the same. The
  structs live in a store that maps an address to the struct found there; the function
  is given the two addresses. The first loop re-reads \<^verbatim>\<open>other->elementCount\<close> from the
  store before every round.
\<close>

type_synonym 'a store = "nat \<Rightarrow> 'a ringbuffer_t"

partial_function (option) append_loop ::
  "nat \<Rightarrow> nat \<Rightarrow> allocator \<Rightarrow> 'a store \<Rightarrow> nat \<Rightarrow> nat \<Rightarrow> int \<Rightarrow>
     (allocator \<times> 'a store \<times> nat \<times> int) outcome option" where
  "append_loop ringbuffer other a h i countAdded error =
     (if i < elementCount (h other) \<and> error = 0 then
        case ringbuffer_get (h other) i of
          Undefined \<Rightarrow> Some Undefined
        | Return v \<Rightarrow>
            (case ringbuffer_append a (h ringbuffer) v of
               None \<Rightarrow> None
             | Some Undefined \<Rightarrow> Some Undefined
             | Some (Return (rc, rb, a1)) \<Rightarrow>
                 append_loop ringbuffer other a1 (h(ringbuffer := rb)) (i + 1)
                   (countAdded + 1) (or error rc))
      else Some (Return (a, h, countAdded, error)))"

declare append_loop.simps [code]

text \<open>
  The second loop runs \<open>countAdded\<close> times; \<open>n\<close> counts the rounds still to go. The
  index \<^verbatim>\<open>ringbuffer->elementCount - 1\<close> wraps around when the buffer is empty.
\<close>

primrec rollback_loop ::
  "nat \<Rightarrow> allocator \<Rightarrow> 'a ringbuffer_t \<Rightarrow> 'a json_ptr list \<Rightarrow>
     (allocator \<times> 'a ringbuffer_t \<times> 'a json_ptr list) outcome option" where
  "rollback_loop 0 a ringbuffer released = Some (Return (a, ringbuffer, released))"
| "rollback_loop (Suc n) a ringbuffer released =
     and_then (ringbuffer_del a ringbuffer (size_sub (elementCount ringbuffer) 1))
       (\<lambda>(rc, rb, a1, r). rollback_loop n a1 rb (released @ r))"

definition ringbuffer_append_ringbuffer ::
  "allocator \<Rightarrow> 'a store \<Rightarrow> nat \<Rightarrow> nat \<Rightarrow>
     (int \<times> 'a store \<times> allocator \<times> 'a json_ptr list) outcome option" where
  "ringbuffer_append_ringbuffer a h ringbuffer other =
     and_then (append_loop ringbuffer other a h 0 0 0)
       (\<lambda>(a1, h1, countAdded, error).
          if error \<noteq> 0 then
            and_then (rollback_loop countAdded a1 (h1 ringbuffer) [])
              (\<lambda>(a2, rb, released). Some (Return (error, h1(ringbuffer := rb), a2, released)))
          else Some (Return (error, h1, a1, [])))"

subsection \<open>Clients and what they can observe\<close>

text \<open>
  A client owns one buffer and issues calls one after the other. \<open>client\<close> runs a list
  of calls and returns the buffer, the allocator and the status of every call.
\<close>

datatype 'a call =
  Set nat "'a json_ptr" | Insert nat "'a json_ptr" | Append "'a json_ptr" | Del nat

definition perform ::
  "allocator \<Rightarrow> 'a ringbuffer_t \<Rightarrow> 'a call \<Rightarrow>
     (int \<times> 'a ringbuffer_t \<times> allocator) outcome option" where
  "perform a rb c =
     (case c of
        Set i v \<Rightarrow>
          and_then (Some (ringbuffer_set rb i v))
            (\<lambda>(rc, rb1, released). Some (Return (rc, rb1, a)))
      | Insert i v \<Rightarrow> ringbuffer_insert a rb i v
      | Append v \<Rightarrow> ringbuffer_append a rb v
      | Del i \<Rightarrow>
          and_then (ringbuffer_del a rb i)
            (\<lambda>(rc, rb1, a1, released). Some (Return (rc, rb1, a1))))"

fun client ::
  "allocator \<Rightarrow> 'a ringbuffer_t \<Rightarrow> 'a call list \<Rightarrow>
     ('a ringbuffer_t \<times> allocator \<times> int list) outcome option" where
  "client a rb [] = Some (Return (rb, a, []))"
| "client a rb (c # cs) =
     and_then (perform a rb c)
       (\<lambda>(rc, rb1, a1).
          and_then (client a1 rb1 cs)
            (\<lambda>(rb2, a2, rcs). Some (Return (rb2, a2, rc # rcs))))"

text \<open>The buffer as \<^verbatim>\<open>ringbuffer_init\<close> leaves it.\<close>

definition empty_ringbuffer :: "'a ringbuffer_t" where
  "empty_ringbuffer =
     ringbuffer_init \<lparr>buffer_size = 0, start = 0, elementCount = 0, buffer = None\<rparr>"

text \<open>
  The logical contents of a buffer: what \<^verbatim>\<open>ringbuffer_get\<close> returns for the indices
  \<open>0\<close> to \<open>elementCount - 1\<close>.
\<close>

definition elements :: "'a ringbuffer_t \<Rightarrow> 'a json_ptr outcome list" where
  "elements rb = map (ringbuffer_get rb) [0..<elementCount rb]"

text \<open>
  The invariant of the data model: \<open>start\<close> lies below the capacity, or is \<open>0\<close> when
  the capacity is \<open>0\<close>; the count does not exceed the capacity; the capacity is \<open>0\<close> or
  at least the minimum.
\<close>

definition invariant :: "'a ringbuffer_t \<Rightarrow> bool" where
  "invariant rb =
     ((if buffer_size rb = 0 then start rb = 0
       else start rb < buffer_size rb \<and> RINGBUFFER_MIN_BUFFER_SIZE \<le> buffer_size rb)
      \<and> elementCount rb \<le> buffer_size rb)"

text \<open>
  The storage of a buffer is in order when the block has \<open>buffer_size\<close> slots (and there
  is no block when \<open>buffer_size\<close> is \<open>0\<close>) and the count does not exceed the capacity.
\<close>

definition well_allocated :: "'a ringbuffer_t \<Rightarrow> bool" where
  "well_allocated rb =
     (elementCount rb \<le> buffer_size rb \<and>
      (case buffer rb of
         None \<Rightarrow> buffer_size rb = 0
       | Some xs \<Rightarrow> length xs = buffer_size rb \<and> 0 < buffer_size rb))"

text \<open>The number of slots of the block, if there is a block.\<close>

definition slots :: "'a ringbuffer_t \<Rightarrow> nat option" where
  "slots rb = map_option length (buffer rb)"

text \<open>
  The number of slots of the block that the allocator hands out when
  \<^verbatim>\<open>ringbuffer_resize\<close> asks for \<open>n\<close> slots. It is \<open>n\<close> as long as \<open>8 * n\<close> does not
  exceed \<^verbatim>\<open>SIZE_MAX\<close>.
\<close>

definition granted :: "nat \<Rightarrow> nat" where
  "granted n = size_mul n sizeof_json_ptr div sizeof_json_ptr"

text \<open>
  The capacities that a buffer can have when it is built from the initial one: 0, and
  the powers of two from 8 to \<open>2 ^ 60\<close>.
\<close>

definition reachable_capacity :: "nat \<Rightarrow> bool" where
  "reachable_capacity n = (n = 0 \<or> (\<exists>k\<in>{3..60}. n = 2 ^ k))"

text \<open>
  Following the spec's words, the naive insertion and deletion on the logical sequence:
  every element after the index moves by one position.
\<close>

definition naive_insert :: "'b list \<Rightarrow> nat \<Rightarrow> 'b \<Rightarrow> 'b list" where
  "naive_insert xs i v = take i xs @ v # drop i xs"

definition naive_del :: "'b list \<Rightarrow> nat \<Rightarrow> 'b list" where
  "naive_del xs i = take i xs @ drop (Suc i) xs"

section \<open>Evaluation\<close>

text \<open>Rules that let the simplifier run the operations on concrete buffers.\<close>

lemma replicate_numeral: "replicate (numeral k) x = x # replicate (pred_numeral k) x"
  by (simp add: numeral_eq_Suc)

lemma list_update_Cons_numeral: "(x # xs)[numeral k := v] = x # xs[pred_numeral k := v]"
  by (simp add: numeral_eq_Suc)

lemma empty_ringbuffer_code [code]:
  "empty_ringbuffer = \<lparr>buffer_size = 0, start = 0, elementCount = 0, buffer = None\<rparr>"
  by (simp add: empty_ringbuffer_def ringbuffer_init_def)

lemmas run =
  perform_def and_then_def ringbuffer_append_def ringbuffer_insert_def ringbuffer_del_def
  insert_place_def del_shift_def
  ringbuffer_resize_def resize_relocate_def jsonp_malloc_def jsonp_realloc_def
  buffer_store_def slot_write_def slot_read_def memmove_def
  ringbuffer_move_def move_forward.simps move_backward.simps forward_step_def backward_step_def
  ringbuffer_get_def ringbuffer_set_def empty_ringbuffer_def ringbuffer_init_def
  RINGBUFFER_MIN_BUFFER_SIZE_def size_sub_def size_mul_def sizeof_json_ptr_def SIZE_MAX_def
  elements_def invariant_def naive_insert_def naive_del_def
  Let_def replicate_numeral list_update_Cons_numeral upt_rec

section \<open>What an operation leaves as it was\<close>

text \<open>
  \<^verbatim>\<open>memmove\<close> and the assignment to a slot keep the number of slots; the two loops of
  \<^verbatim>\<open>ringbuffer_move\<close> change nothing but the content of the block, whenever they
  return. The loops are partial functions, so the facts about them come from the
  induction rule for their graphs.
\<close>

lemma memmove_shape:
  "memmove b dst src n = Return b' \<Longrightarrow> map_option length b' = map_option length b \<and> b \<noteq> None"
  by (auto simp: memmove_def split: option.splits if_splits)

lemma forward_step_shape:
  assumes "forward_step rb pr pw c = Return (rb1, pr1, pw1, c1)"
  shows "buffer_size rb1 = buffer_size rb \<and> start rb1 = start rb \<and>
         elementCount rb1 = elementCount rb \<and> slots rb1 = slots rb \<and> slots rb \<noteq> None"
proof (cases "memmove (buffer rb) pw pr (min (min (buffer_size rb - pr) (buffer_size rb - pw)) c)")
  case Undefined
  with assms show ?thesis by (simp add: forward_step_def Let_def)
next
  case (Return b)
  with assms have "rb1 = rb\<lparr>buffer := b\<rparr>"
    by (simp add: forward_step_def Let_def)
  with memmove_shape [OF Return] show ?thesis by (simp add: slots_def)
qed

lemma backward_step_shape:
  assumes "backward_step rb pr pw c = Return (rb1, pr1, pw1, c1)"
  shows "buffer_size rb1 = buffer_size rb \<and> start rb1 = start rb \<and>
         elementCount rb1 = elementCount rb \<and> slots rb1 = slots rb \<and> slots rb \<noteq> None"
proof (cases "memmove (buffer rb) pw pr (min (min pr pw) c)")
  case Undefined
  with assms show ?thesis by (simp add: backward_step_def Let_def)
next
  case (Return b)
  with assms have "rb1 = rb\<lparr>buffer := b\<rparr>"
    by (simp add: backward_step_def Let_def)
  with memmove_shape [OF Return] show ?thesis by (simp add: slots_def)
qed

lemma move_forward_shape:
  assumes "move_forward rb pr pw c = Some y"
  shows "\<forall>rb'. y = Return rb' \<longrightarrow>
           buffer_size rb' = buffer_size rb \<and> start rb' = start rb \<and>
           elementCount rb' = elementCount rb \<and> slots rb' = slots rb \<and> slots rb \<noteq> None"
proof (rule move_forward.raw_induct
    [where P = "\<lambda>rb pr pw c y. \<forall>rb'. y = Return rb' \<longrightarrow>
           buffer_size rb' = buffer_size rb \<and> start rb' = start rb \<and>
           elementCount rb' = elementCount rb \<and> slots rb' = slots rb \<and> slots rb \<noteq> None",
     OF _ assms], goal_cases)
  case (1 f rb pr pw c y)
  show ?case
  proof (cases "forward_step rb pr pw c")
    case Undefined
    with "1"(2) show ?thesis by simp
  next
    case (Return r)
    obtain rb1 pr1 pw1 c1 where r: "r = (rb1, pr1, pw1, c1)" by (cases r) auto
    note s = forward_step_shape [OF Return [unfolded r]]
    show ?thesis
    proof (cases "c1 = 0")
      case True
      with "1"(2) Return r have "y = Return rb1" by simp
      with s show ?thesis by simp
    next
      case False
      with "1"(2) Return r have "f rb1 pr1 pw1 c1 = Some y" by simp
      note ih = "1"(1) [OF this]
      show ?thesis
      proof (intro allI impI)
        fix rb' assume "y = Return rb'"
        with ih have "buffer_size rb' = buffer_size rb1 \<and> start rb' = start rb1 \<and>
           elementCount rb' = elementCount rb1 \<and> slots rb' = slots rb1" by blast
        with s show "buffer_size rb' = buffer_size rb \<and> start rb' = start rb \<and>
           elementCount rb' = elementCount rb \<and> slots rb' = slots rb \<and> slots rb \<noteq> None"
          by simp
      qed
    qed
  qed
qed

lemma move_backward_shape:
  assumes "move_backward rb pr pw c = Some y"
  shows "\<forall>rb'. y = Return rb' \<longrightarrow>
           buffer_size rb' = buffer_size rb \<and> start rb' = start rb \<and>
           elementCount rb' = elementCount rb \<and> slots rb' = slots rb \<and> slots rb \<noteq> None"
proof (rule move_backward.raw_induct
    [where P = "\<lambda>rb pr pw c y. \<forall>rb'. y = Return rb' \<longrightarrow>
           buffer_size rb' = buffer_size rb \<and> start rb' = start rb \<and>
           elementCount rb' = elementCount rb \<and> slots rb' = slots rb \<and> slots rb \<noteq> None",
     OF _ assms], goal_cases)
  case (1 f rb pr pw c y)
  show ?case
  proof (cases "backward_step rb pr pw c")
    case Undefined
    with "1"(2) show ?thesis by simp
  next
    case (Return r)
    obtain rb1 pr1 pw1 c1 where r: "r = (rb1, pr1, pw1, c1)" by (cases r) auto
    note s = backward_step_shape [OF Return [unfolded r]]
    show ?thesis
    proof (cases "c1 = 0")
      case True
      with "1"(2) Return r have "y = Return rb1" by simp
      with s show ?thesis by simp
    next
      case False
      with "1"(2) Return r have "f rb1 pr1 pw1 c1 = Some y" by simp
      note ih = "1"(1) [OF this]
      show ?thesis
      proof (intro allI impI)
        fix rb' assume "y = Return rb'"
        with ih have "buffer_size rb' = buffer_size rb1 \<and> start rb' = start rb1 \<and>
           elementCount rb' = elementCount rb1 \<and> slots rb' = slots rb1" by blast
        with s show "buffer_size rb' = buffer_size rb \<and> start rb' = start rb \<and>
           elementCount rb' = elementCount rb \<and> slots rb' = slots rb \<and> slots rb \<noteq> None"
          by simp
      qed
    qed
  qed
qed

lemma ringbuffer_move_shape:
  assumes "ringbuffer_move rb dest src c = Some (Return rb')"
  shows "buffer_size rb' = buffer_size rb \<and> start rb' = start rb \<and>
         elementCount rb' = elementCount rb \<and> slots rb' = slots rb \<and> slots rb \<noteq> None"
proof (cases "dest < src")
  case True
  with assms have "move_forward rb ((start rb + src) mod buffer_size rb)
      ((start rb + dest) mod buffer_size rb) c = Some (Return rb')"
    by (simp add: ringbuffer_move_def split: if_splits)
  from move_forward_shape [OF this] show ?thesis by simp
next
  case False
  with assms have "move_backward rb ((start rb + (src + c - 1)) mod buffer_size rb)
      ((start rb + (dest + c - 1)) mod buffer_size rb) c = Some (Return rb')"
    by (simp add: ringbuffer_move_def Let_def split: if_splits)
  from move_backward_shape [OF this] show ?thesis by simp
qed

lemma buffer_store_shape:
  "buffer_store rb i v = Return rb' \<Longrightarrow>
     buffer_size rb' = buffer_size rb \<and> start rb' = start rb \<and>
     elementCount rb' = elementCount rb \<and> slots rb' = slots rb \<and> slots rb \<noteq> None \<and>
     slots rb \<noteq> Some 0"
  by (auto simp: buffer_store_def slot_write_def slots_def split: option.splits if_splits outcome.splits)

lemma resize_relocate_shape:
  assumes "resize_relocate rb n = Return rb'"
  shows "buffer_size rb' = buffer_size rb \<and> elementCount rb' = elementCount rb \<and>
         slots rb' = slots rb"
proof (cases "start rb > size_sub (buffer_size rb) (elementCount rb)")
  case False
  with assms show ?thesis by (simp add: resize_relocate_def)
next
  case wrapped: True
  define upper where "upper = size_sub (buffer_size rb) (start rb)"
  define lower where "lower = (start rb + elementCount rb) mod buffer_size rb"
  define growth where "growth = size_sub n (buffer_size rb)"
  from assms wrapped have nz: "buffer_size rb \<noteq> 0"
    by (auto simp: resize_relocate_def split: if_splits)
  show ?thesis
  proof (cases "upper < lower")
    case True
    with assms wrapped nz obtain b where
      "memmove (buffer rb) (n - upper) (buffer_size rb - upper) upper = Return b"
      "rb' = rb\<lparr>buffer := b, start := size_sub n upper\<rparr>"
      by (auto simp: resize_relocate_def Let_def upper_def lower_def split: if_splits outcome.splits)
    with memmove_shape [OF this(1)] show ?thesis by (simp add: slots_def)
  next
    case notless: False
    show ?thesis
    proof (cases "lower > growth")
      case True
      with assms wrapped nz notless obtain b1 b2 where
        "memmove (buffer rb) (buffer_size rb) 0 growth = Return b1"
        "memmove b1 0 growth (lower - growth) = Return b2"
        "rb' = rb\<lparr>buffer := b2\<rparr>"
        by (auto simp: resize_relocate_def Let_def upper_def lower_def growth_def
            split: if_splits outcome.splits)
      with memmove_shape [OF this(1)] memmove_shape [OF this(2)] show ?thesis
        by (simp add: slots_def)
    next
      case False
      with assms wrapped nz notless obtain b where
        "memmove (buffer rb) (buffer_size rb) 0 lower = Return b"
        "rb' = rb\<lparr>buffer := b\<rparr>"
        by (auto simp: resize_relocate_def Let_def upper_def lower_def growth_def
            split: if_splits outcome.splits)
      with memmove_shape [OF this(1)] show ?thesis by (simp add: slots_def)
    qed
  qed
qed

lemma ringbuffer_resize_cases:
  assumes "ringbuffer_resize a rb n = Return (rc, rb', a')"
  shows "(rc = - 1 \<and> rb' = rb \<and>
          (\<not> a 0 \<or> (slots rb \<noteq> None \<and> max RINGBUFFER_MIN_BUFFER_SIZE n < elementCount rb))) \<or>
         (rc = 0 \<and> a 0 \<and> (slots rb \<noteq> None \<longrightarrow> elementCount rb \<le> max RINGBUFFER_MIN_BUFFER_SIZE n) \<and>
          buffer_size rb' = max RINGBUFFER_MIN_BUFFER_SIZE n \<and>
          elementCount rb' = elementCount rb \<and>
          slots rb' = Some (granted (max RINGBUFFER_MIN_BUFFER_SIZE n)))"
proof (cases "buffer rb")
  case None
  with assms show ?thesis
    by (auto simp: ringbuffer_resize_def jsonp_malloc_def max_def Let_def slots_def granted_def
        split: if_splits)
next
  case (Some xs)
  define m where "m = max RINGBUFFER_MIN_BUFFER_SIZE n"
  have m: "(if n < RINGBUFFER_MIN_BUFFER_SIZE then RINGBUFFER_MIN_BUFFER_SIZE else n) = m"
    by (simp add: m_def max_def)
  show ?thesis
  proof (cases "m < elementCount rb \<or> \<not> a 0")
    case True
    with assms Some show ?thesis unfolding m_def [symmetric]
      by (auto simp: ringbuffer_resize_def jsonp_realloc_def m slots_def split: if_splits)
  next
    case False
    define blk where
      "blk = take (granted m) xs @ replicate (granted m - length xs) (Indeterminate :: 'a json_ptr)"
    have len: "length blk = granted m" by (simp add: blk_def)
    from assms Some False obtain rb1 where
      rel: "resize_relocate (rb\<lparr>buffer := Some blk\<rparr>) m = Return rb1"
      and res: "rc = 0" "rb' = rb1\<lparr>buffer_size := m\<rparr>"
      by (auto simp: ringbuffer_resize_def jsonp_realloc_def m blk_def granted_def
          split: outcome.splits)
    from resize_relocate_shape [OF rel] res len False show ?thesis
      unfolding m_def [symmetric] by (simp add: slots_def)
  qed
qed

text \<open>
  What \<^verbatim>\<open>ringbuffer_insert\<close> and \<^verbatim>\<open>ringbuffer_del\<close> do to the count and the capacity
  whenever they return.
\<close>

lemma insert_place_shape:
  assumes "insert_place rb i v = Some (Return rb')"
  shows "buffer_size rb \<noteq> 0 \<and> buffer_size rb' = buffer_size rb \<and>
         elementCount rb' = elementCount rb \<and> slots rb' = slots rb \<and> slots rb \<noteq> None \<and>
         slots rb \<noteq> Some 0"
proof -
  from assms have nz: "buffer_size rb \<noteq> 0" by (auto simp: insert_place_def split: if_splits)
  define rb1 where "rb1 = rb\<lparr>start := (start rb + buffer_size rb - 1) mod buffer_size rb\<rparr>"
  have rb1: "buffer_size rb1 = buffer_size rb" "elementCount rb1 = elementCount rb"
    "slots rb1 = slots rb"
    by (simp_all add: rb1_def slots_def)
  consider (last) "i = elementCount rb"
    | (first) "i \<noteq> elementCount rb" "i = 0"
    | (front) "i \<noteq> elementCount rb" "i \<noteq> 0" "i \<le> elementCount rb div 2"
    | (rear) "i \<noteq> elementCount rb" "i \<noteq> 0" "\<not> i \<le> elementCount rb div 2"
    by blast
  then have "buffer_size rb' = buffer_size rb \<and>
         elementCount rb' = elementCount rb \<and> slots rb' = slots rb \<and> slots rb \<noteq> None \<and>
         slots rb \<noteq> Some 0"
  proof cases
    case last
    with assms nz have "buffer_store rb ((start rb + elementCount rb) mod buffer_size rb) v = Return rb'"
      by (simp add: insert_place_def)
    from buffer_store_shape [OF this] show ?thesis by simp
  next
    case first
    with assms nz have "buffer_store rb1 (start rb1) v = Return rb'"
      by (simp add: insert_place_def rb1_def Let_def)
    from buffer_store_shape [OF this] rb1 show ?thesis by simp
  next
    case front
    with assms nz obtain rb2 where
      mv: "ringbuffer_move rb1 0 1 i = Some (Return rb2)"
      and st: "buffer_store rb2 ((start rb2 + i) mod buffer_size rb2) v = Return rb'"
      by (auto simp: insert_place_def rb1_def Let_def and_then_def split: option.splits outcome.splits)
    from ringbuffer_move_shape [OF mv] buffer_store_shape [OF st] rb1 show ?thesis by simp
  next
    case rear
    with assms nz obtain rb2 where
      mv: "ringbuffer_move rb (i + 1) i (elementCount rb - i) = Some (Return rb2)"
      and st: "buffer_store rb2 ((start rb2 + i) mod buffer_size rb2) v = Return rb'"
      by (auto simp: insert_place_def Let_def and_then_def split: option.splits outcome.splits)
    from ringbuffer_move_shape [OF mv] buffer_store_shape [OF st] show ?thesis by simp
  qed
  with nz show ?thesis by simp
qed

lemma del_shift_shape:
  assumes "del_shift rb i = Some (Return rb')"
  shows "buffer_size rb' = buffer_size rb \<and> elementCount rb' = elementCount rb \<and>
         slots rb' = slots rb"
proof -
  consider (last) "i = elementCount rb - 1"
    | (first) "i \<noteq> elementCount rb - 1" "i = 0"
    | (front) "i \<noteq> elementCount rb - 1" "i \<noteq> 0" "i < elementCount rb div 2"
    | (rear) "i \<noteq> elementCount rb - 1" "i \<noteq> 0" "\<not> i < elementCount rb div 2"
    by blast
  then show ?thesis
  proof cases
    case last
    with assms show ?thesis by (simp add: del_shift_def)
  next
    case first
    with assms have "rb' = rb\<lparr>start := (start rb + 1) mod buffer_size rb\<rparr>"
      by (simp add: del_shift_def)
    then show ?thesis by (simp add: slots_def)
  next
    case front
    with assms obtain rb1 where
      mv: "ringbuffer_move rb 1 0 i = Some (Return rb1)"
      and r: "rb' = rb1\<lparr>start := (start rb1 + 1) mod buffer_size rb1\<rparr>"
      by (auto simp: del_shift_def and_then_def split: option.splits outcome.splits)
    from ringbuffer_move_shape [OF mv] r show ?thesis by (simp add: slots_def)
  next
    case rear
    with assms have "ringbuffer_move rb i (i + 1) (elementCount rb - i) = Some (Return rb')"
      by (simp add: del_shift_def)
    from ringbuffer_move_shape [OF this] show ?thesis by simp
  qed
qed

lemma ringbuffer_insert_cases:
  assumes "ringbuffer_insert a rb i v = Some (Return (rc, rb', a'))"
  shows "(rc = - 1 \<and> rb' = rb) \<or>
         (rc = 0 \<and> i \<le> elementCount rb \<and>
          elementCount rb' = elementCount rb + 1 \<and>
          buffer_size rb' =
            (if elementCount rb = buffer_size rb
             then max RINGBUFFER_MIN_BUFFER_SIZE (size_mul (buffer_size rb) 2)
             else buffer_size rb) \<and>
          slots rb' =
            (if elementCount rb = buffer_size rb
             then Some (granted (max RINGBUFFER_MIN_BUFFER_SIZE (size_mul (buffer_size rb) 2)))
             else slots rb) \<and>
          slots rb' \<noteq> None \<and> slots rb' \<noteq> Some 0)"
proof (cases "i > elementCount rb")
  case True
  with assms show ?thesis by (simp add: ringbuffer_insert_def)
next
  case inrange: False
  show ?thesis
  proof (cases "elementCount rb = buffer_size rb")
    case full: True
    from assms inrange full obtain rc1 rb1 a1 where
      rs: "ringbuffer_resize a rb (size_mul (buffer_size rb) 2) = Return (rc1, rb1, a1)"
      by (auto simp: ringbuffer_insert_def split: outcome.splits)
    show ?thesis
    proof (cases "rc1 = 0")
      case False
      with assms inrange full rs ringbuffer_resize_cases [OF rs] show ?thesis
        by (auto simp: ringbuffer_insert_def)
    next
      case True
      with assms inrange full rs obtain rb2 where
        pl: "insert_place rb1 i v = Some (Return rb2)"
        and r: "rc = 0" "rb' = rb2\<lparr>elementCount := elementCount rb2 + 1\<rparr>"
        by (auto simp: ringbuffer_insert_def and_then_def split: option.splits outcome.splits)
      from ringbuffer_resize_cases [OF rs] True insert_place_shape [OF pl] r inrange full
      show ?thesis by (simp add: slots_def)
    qed
  next
    case notfull: False
    with assms inrange obtain rb2 where
      pl: "insert_place rb i v = Some (Return rb2)"
      and r: "rc = 0" "rb' = rb2\<lparr>elementCount := elementCount rb2 + 1\<rparr>"
      by (auto simp: ringbuffer_insert_def and_then_def split: option.splits outcome.splits)
    from insert_place_shape [OF pl] r inrange notfull show ?thesis by (simp add: slots_def)
  qed
qed

lemma slot_read_slots: "slot_read b i = Return r \<Longrightarrow> b \<noteq> None"
  by (auto simp: slot_read_def split: option.splits)

lemma ringbuffer_del_cases:
  assumes "ringbuffer_del a rb i = Some (Return (rc, rb', a', rel))"
  shows "(rc = - 1 \<and> rb' = rb \<and> a' = a \<and> rel = [] \<and> elementCount rb \<le> i) \<or>
         (rc = 0 \<and> i < elementCount rb \<and> buffer_size rb \<noteq> 0 \<and> slots rb \<noteq> None \<and>
          slot_read (buffer rb) ((start rb + i) mod buffer_size rb) = Return (hd rel) \<and>
          rel = [hd rel] \<and>
          elementCount rb' = elementCount rb - 1 \<and>
          ((buffer_size rb' = buffer_size rb \<and> slots rb' = slots rb \<and>
            (elementCount rb - 1 < buffer_size rb div 8 \<longrightarrow> \<not> a 0)) \<or>
           (elementCount rb - 1 < buffer_size rb div 8 \<and> a 0 \<and>
            buffer_size rb' = max RINGBUFFER_MIN_BUFFER_SIZE (buffer_size rb div 2) \<and>
            slots rb' = Some (granted (max RINGBUFFER_MIN_BUFFER_SIZE (buffer_size rb div 2))))))"
proof (cases "i \<ge> elementCount rb")
  case True
  with assms show ?thesis by (simp add: ringbuffer_del_def)
next
  case inrange: False
  with assms have nz: "buffer_size rb \<noteq> 0"
    by (auto simp: ringbuffer_del_def split: if_splits)
  from assms inrange nz obtain r rb1 where
    rd: "slot_read (buffer rb) ((start rb + i) mod buffer_size rb) = Return r"
    and sh: "del_shift rb i = Some (Return rb1)"
    by (auto simp: ringbuffer_del_def and_then_def split: option.splits outcome.splits)
  define rb2 where "rb2 = rb1\<lparr>elementCount := elementCount rb1 - 1\<rparr>"
  note s1 = del_shift_shape [OF sh]
  from s1 have rb2: "buffer_size rb2 = buffer_size rb" "elementCount rb2 = elementCount rb - 1"
    "slots rb2 = slots rb"
    by (simp_all add: rb2_def slots_def)
  from slot_read_slots [OF rd] have sl: "slots rb \<noteq> None" by (simp add: slots_def)
  show ?thesis
  proof (cases "elementCount rb - 1 < buffer_size rb div 8")
    case False
    with assms inrange nz rd sh rb2 have "rc = 0" "rb' = rb2" "rel = [r]"
      by (auto simp: ringbuffer_del_def and_then_def Let_def rb2_def)
    with rb2 rd inrange nz sl False show ?thesis by simp
  next
    case True
    with assms inrange nz rd sh rb2 obtain rc1 where
      rs: "ringbuffer_resize a rb2 (buffer_size rb div 2) = Return (rc1, rb', a')"
      and r: "rc = 0" "rel = [r]"
      by (auto simp: ringbuffer_del_def and_then_def Let_def rb2_def split: outcome.splits)
    have "buffer_size rb div 8 \<le> buffer_size rb div 2" by presburger
    with True rb2(2) have "elementCount rb2 \<le> buffer_size rb div 2" by linarith
    then have "\<not> max RINGBUFFER_MIN_BUFFER_SIZE (buffer_size rb div 2) < elementCount rb2"
      by (auto simp: max_def)
    with ringbuffer_resize_cases [OF rs] rb2 sl r rd inrange nz True show ?thesis
      by auto
  qed
qed

section \<open>Sizes that do not wrap around\<close>

text \<open>
  A product that fits into \<^verbatim>\<open>size_t\<close> is exact, and a request for fewer than \<open>2 ^ 61\<close>
  slots is granted in full. A request for \<open>2 ^ 61\<close> slots or more is not: its byte count
  has wrapped around.
\<close>

lemma SIZE_MAX_Suc: "Suc SIZE_MAX = 2 ^ 64"
  by (simp add: SIZE_MAX_def)

lemma size_mul_exact: "a * b \<le> SIZE_MAX \<Longrightarrow> size_mul a b = a * b"
  by (simp add: size_mul_def)

lemma granted_exact:
  assumes "n < 2 ^ 61"
  shows "granted n = n"
proof -
  from assms have "n * 8 < 2 ^ 64" by simp
  then have "(n * 8) mod 2 ^ 64 = n * 8" by (rule mod_less)
  then show ?thesis by (simp add: granted_def size_mul_def sizeof_json_ptr_def SIZE_MAX_Suc)
qed

lemma granted_wrapped:
  assumes "2 ^ 61 \<le> n" "n < 2 ^ 62"
  shows "granted n = n - 2 ^ 61"
proof -
  from assms have "2 ^ 64 \<le> n * 8" "n * 8 - 2 ^ 64 < 2 ^ 64" by simp_all
  then have "(n * 8) mod 2 ^ 64 = n * 8 - 2 ^ 64"
    by (metis le_mod_geq mod_less)
  moreover from assms have "(n * 8 - 2 ^ 64) div 8 = n - 2 ^ 61" by simp
  ultimately show ?thesis by (simp add: granted_def size_mul_def sizeof_json_ptr_def SIZE_MAX_Suc)
qed

section \<open>Buffers whose storage is in order\<close>

text \<open>
  Two indices below the capacity that land on the same slot are equal.
\<close>

lemma mod_add_inj_le:
  fixes s :: nat
  assumes "i \<le> j" "j < n" "(s + i) mod n = (s + j) mod n"
  shows "i = j"
proof -
  from assms(1) have "s + i \<le> s + j" by simp
  from mod_eq_dvd_iff_nat [OF this, of n] assms(3) have "n dvd (s + j) - (s + i)" by simp
  then have "n dvd j - i" by simp
  moreover from assms have "j - i < n" by simp
  ultimately have "j - i = 0" by (meson dvd_imp_le not_less zero_less_iff_neq_zero)
  with assms(1) show ?thesis by simp
qed

lemma mod_add_inj:
  fixes s :: nat
  assumes "i < n" "j < n" "(s + i) mod n = (s + j) mod n"
  shows "i = j"
proof (cases "i \<le> j")
  case True
  from mod_add_inj_le [OF True assms(2,3)] show ?thesis .
next
  case False
  then have "j \<le> i" by simp
  from mod_add_inj_le [OF this assms(1) assms(3) [symmetric]] show ?thesis by simp
qed

text \<open>
  On a buffer whose storage is in order, reading an element in range is defined, and
  doubling a full buffer of fewer than \<open>2 ^ 60\<close> slots is defined for every \<open>start\<close>.
\<close>

lemma well_allocated_slots:
  "well_allocated rb \<longleftrightarrow>
     elementCount rb \<le> buffer_size rb \<and>
     slots rb = (if buffer_size rb = 0 then None else Some (buffer_size rb))"
  by (auto simp: well_allocated_def slots_def split: option.splits)





lemma doubling_exact:
  assumes "n < 2 ^ 60"
  shows "size_mul n 2 = n * 2"
    and "granted (max RINGBUFFER_MIN_BUFFER_SIZE (n * 2)) = max RINGBUFFER_MIN_BUFFER_SIZE (n * 2)"
proof -
  from assms have "n * 2 \<le> SIZE_MAX" by (simp add: SIZE_MAX_def)
  then show "size_mul n 2 = n * 2" by (rule size_mul_exact)
  from assms have "max RINGBUFFER_MIN_BUFFER_SIZE (n * 2) < 2 ^ 61"
    by (simp add: RINGBUFFER_MIN_BUFFER_SIZE_def)
  then show "granted (max RINGBUFFER_MIN_BUFFER_SIZE (n * 2)) = max RINGBUFFER_MIN_BUFFER_SIZE (n * 2)"
    by (rule granted_exact)
qed













text \<open>
  Every buffer that a client can build from the initial one has its storage in order,
  whatever the allocator answers. Its capacity is 0 or a power of two from 8 to
  \<open>2 ^ 60\<close>: a full buffer of \<open>2 ^ 60\<close> slots gets a block without any slot when it asks
  for twice as many, and no insertion into such a block returns.
\<close>

lemma reachable_capacity_min: "reachable_capacity RINGBUFFER_MIN_BUFFER_SIZE"
  by (auto simp: reachable_capacity_def RINGBUFFER_MIN_BUFFER_SIZE_def intro: bexI [of _ 3])

lemma reachable_capacity_double:
  assumes "reachable_capacity n" "n \<noteq> 2 ^ 60"
  shows "n < 2 ^ 60 \<and> reachable_capacity (max RINGBUFFER_MIN_BUFFER_SIZE (n * 2))"
proof -
  from assms(1) consider "n = 0" | k where "3 \<le> k" "k \<le> 60" "n = 2 ^ k"
    by (auto simp: reachable_capacity_def)
  then show ?thesis
  proof cases
    case 1
    with reachable_capacity_min show ?thesis by simp
  next
    case 2
    with assms(2) have k: "k < 60" by (cases "k = 60") auto
    then have lt: "(2::nat) ^ k < 2 ^ 60" by (rule power_strict_increasing) simp
    from 2(1) have "(2::nat) ^ 3 \<le> 2 ^ k" by (rule power_increasing) simp
    then have ge: "8 \<le> (2::nat) ^ k" by simp
    from 2(1) k have "Suc k \<in> {3..60}" by simp
    moreover have "(2::nat) ^ k * 2 = 2 ^ Suc k" by simp
    ultimately have "reachable_capacity (2 ^ k * 2)"
      unfolding reachable_capacity_def by blast
    moreover from ge have "max RINGBUFFER_MIN_BUFFER_SIZE (2 ^ k * 2) = 2 ^ k * 2"
      by (simp add: RINGBUFFER_MIN_BUFFER_SIZE_def max_def)
    ultimately show ?thesis using lt 2(3) by simp
  qed
qed

lemma reachable_capacity_half:
  assumes "reachable_capacity n"
  shows "reachable_capacity (max RINGBUFFER_MIN_BUFFER_SIZE (n div 2)) \<and>
         max RINGBUFFER_MIN_BUFFER_SIZE (n div 2) < 2 ^ 61"
proof -
  from assms consider "n = 0" | k where "3 \<le> k" "k \<le> 60" "n = 2 ^ k"
    by (auto simp: reachable_capacity_def)
  then consider "n = 0" | "n = 2 ^ 3" | k where "4 \<le> k" "k \<le> 60" "n = 2 ^ k"
  proof cases
    case 1
    with that(1) show ?thesis .
  next
    case (2 k)
    show ?thesis
    proof (cases "k = 3")
      case True
      with 2 that(2) show ?thesis by simp
    next
      case False
      with 2 have "4 \<le> k" by simp
      with 2 that(3) show ?thesis by blast
    qed
  qed
  then show ?thesis
  proof cases
    case 1
    with reachable_capacity_min show ?thesis by (simp add: RINGBUFFER_MIN_BUFFER_SIZE_def)
  next
    case 2
    with reachable_capacity_min show ?thesis by (simp add: RINGBUFFER_MIN_BUFFER_SIZE_def)
  next
    case 3
    then obtain j where j: "k = Suc j" "3 \<le> j" "j < 60" by (cases k) auto
    then have lt: "(2::nat) ^ j < 2 ^ 60" by (intro power_strict_increasing) simp_all
    from j(2) have "(2::nat) ^ 3 \<le> 2 ^ j" by (rule power_increasing) simp
    then have ge: "8 \<le> (2::nat) ^ j" by simp
    from j have "j \<in> {3..60}" by simp
    then have "reachable_capacity (2 ^ j)" unfolding reachable_capacity_def by blast
    moreover from 3(3) j(1) have "n div 2 = 2 ^ j" by simp
    moreover from ge have "max RINGBUFFER_MIN_BUFFER_SIZE (2 ^ j) = 2 ^ j"
      by (simp add: RINGBUFFER_MIN_BUFFER_SIZE_def max_def)
    ultimately show ?thesis using lt by simp
  qed
qed

lemma well_allocated_empty:
  "well_allocated empty_ringbuffer \<and> reachable_capacity (buffer_size empty_ringbuffer)"
  by (simp add: well_allocated_def empty_ringbuffer_def ringbuffer_init_def reachable_capacity_def)

lemma ringbuffer_set_well_allocated:
  assumes "well_allocated rb" "ringbuffer_set rb i v = Return (rc, rb', released)"
  shows "well_allocated rb' \<and> buffer_size rb' = buffer_size rb"
proof (cases "i \<ge> elementCount rb")
  case True
  with assms show ?thesis by (simp add: ringbuffer_set_def)
next
  case False
  with assms(2) obtain b where
    "slot_write (buffer rb) ((start rb + i) mod buffer_size rb) v = Return b"
    "rb' = rb\<lparr>buffer := b\<rparr>"
    by (auto simp: ringbuffer_set_def Let_def split: if_splits outcome.splits)
  with assms(1) show ?thesis
    by (auto simp: well_allocated_def slot_write_def split: option.splits if_splits)
qed

lemma ringbuffer_insert_well_allocated:
  assumes wa: "well_allocated rb" and cap: "reachable_capacity (buffer_size rb)"
    and ins: "ringbuffer_insert a rb i v = Some (Return (rc, rb', a'))"
  shows "well_allocated rb' \<and> reachable_capacity (buffer_size rb')"
proof (cases "rc = 0")
  case False
  with ringbuffer_insert_cases [OF ins] wa cap show ?thesis by auto
next
  case True
  with ringbuffer_insert_cases [OF ins] have
    count: "elementCount rb' = elementCount rb + 1"
    and size: "buffer_size rb' =
            (if elementCount rb = buffer_size rb
             then max RINGBUFFER_MIN_BUFFER_SIZE (size_mul (buffer_size rb) 2)
             else buffer_size rb)"
    and sl: "slots rb' =
            (if elementCount rb = buffer_size rb
             then Some (granted (max RINGBUFFER_MIN_BUFFER_SIZE (size_mul (buffer_size rb) 2)))
             else slots rb)"
    and nonempty: "slots rb' \<noteq> Some 0"
    by auto
  show ?thesis
  proof (cases "elementCount rb = buffer_size rb")
    case False
    with wa count size sl cap show ?thesis
      by (auto simp: well_allocated_slots split: if_splits)
  next
    case full: True
    show ?thesis
    proof (cases "buffer_size rb = 2 ^ 60")
      case True
      have "(2::nat) ^ 60 * 2 \<le> SIZE_MAX" by (simp add: SIZE_MAX_def)
      then have "size_mul (2 ^ 60) 2 = 2 ^ 60 * 2" by (rule size_mul_exact)
      moreover have "granted (2 ^ 61) = 2 ^ 61 - 2 ^ 61" by (rule granted_wrapped) simp_all
      ultimately have "granted (max RINGBUFFER_MIN_BUFFER_SIZE (size_mul (2 ^ 60) 2)) = 0"
        by (simp add: RINGBUFFER_MIN_BUFFER_SIZE_def)
      with sl full True nonempty show ?thesis by simp
    next
      case False
      from reachable_capacity_double [OF cap False] have
        small: "buffer_size rb < 2 ^ 60"
        and cap': "reachable_capacity (max RINGBUFFER_MIN_BUFFER_SIZE (buffer_size rb * 2))"
        by simp_all
      from doubling_exact [OF small] size sl full have
        "buffer_size rb' = max RINGBUFFER_MIN_BUFFER_SIZE (buffer_size rb * 2)"
        "slots rb' = Some (max RINGBUFFER_MIN_BUFFER_SIZE (buffer_size rb * 2))"
        by simp_all
      with count full cap' show ?thesis
        by (auto simp: well_allocated_slots max_def RINGBUFFER_MIN_BUFFER_SIZE_def)
    qed
  qed
qed

lemma ringbuffer_del_well_allocated:
  assumes wa: "well_allocated rb" and cap: "reachable_capacity (buffer_size rb)"
    and del: "ringbuffer_del a rb i = Some (Return (rc, rb', a', released))"
  shows "well_allocated rb' \<and> reachable_capacity (buffer_size rb')"
proof -
  have d: "buffer_size rb div 8 \<le> buffer_size rb div 2" by presburger
  from reachable_capacity_half [OF cap] have
    cap': "reachable_capacity (max RINGBUFFER_MIN_BUFFER_SIZE (buffer_size rb div 2))"
    and "max RINGBUFFER_MIN_BUFFER_SIZE (buffer_size rb div 2) < 2 ^ 61"
    by simp_all
  then have g: "granted (max RINGBUFFER_MIN_BUFFER_SIZE (buffer_size rb div 2)) =
      max RINGBUFFER_MIN_BUFFER_SIZE (buffer_size rb div 2)"
    by (intro granted_exact)
  from ringbuffer_del_cases [OF del] wa cap cap' d show ?thesis unfolding g
    by (auto simp: well_allocated_slots max_def RINGBUFFER_MIN_BUFFER_SIZE_def split: if_splits)
qed

lemma perform_well_allocated:
  assumes "well_allocated rb" "reachable_capacity (buffer_size rb)"
    and "perform a rb c = Some (Return (rc, rb', a'))"
  shows "well_allocated rb' \<and> reachable_capacity (buffer_size rb')"
proof (cases c)
  case (Set i v)
  with assms(3) obtain released where "ringbuffer_set rb i v = Return (rc, rb', released)"
    by (auto simp: perform_def and_then_def split: outcome.splits)
  from ringbuffer_set_well_allocated [OF assms(1) this] assms(2) show ?thesis by simp
next
  case (Insert i v)
  with assms(3) have "ringbuffer_insert a rb i v = Some (Return (rc, rb', a'))"
    by (simp add: perform_def)
  from ringbuffer_insert_well_allocated [OF assms(1,2) this] show ?thesis .
next
  case (Append v)
  with assms(3) have "ringbuffer_insert a rb (elementCount rb) v = Some (Return (rc, rb', a'))"
    by (simp add: perform_def ringbuffer_append_def)
  from ringbuffer_insert_well_allocated [OF assms(1,2) this] show ?thesis .
next
  case (Del i)
  with assms(3) obtain released where
    "ringbuffer_del a rb i = Some (Return (rc, rb', a', released))"
    by (auto simp: perform_def and_then_def split: option.splits outcome.splits)
  from ringbuffer_del_well_allocated [OF assms(1,2) this] show ?thesis .
qed

lemma client_reachable:
  "well_allocated rb \<Longrightarrow> reachable_capacity (buffer_size rb) \<Longrightarrow>
   client a rb cs = Some (Return (rb', a', rcs)) \<Longrightarrow>
   well_allocated rb' \<and> reachable_capacity (buffer_size rb')"
proof (induction cs arbitrary: a rb rcs)
  case Nil
  then show ?case by simp
next
  case (Cons c cs)
  from Cons.prems(3) obtain rc rb1 a1 rcs1 where
    p: "perform a rb c = Some (Return (rc, rb1, a1))"
    and r: "client a1 rb1 cs = Some (Return (rb', a', rcs1))"
    by (auto simp: and_then_def split: option.splits outcome.splits)
  from perform_well_allocated [OF Cons.prems(1,2) p]
  have "well_allocated rb1" "reachable_capacity (buffer_size rb1)" by simp_all
  from Cons.IH [OF this r] show ?case .
qed

lemma client_well_allocated:
  assumes "client a empty_ringbuffer cs = Some (Return (rb', a', rcs))"
  shows "well_allocated rb'"
  using client_reachable [OF _ _ assms] well_allocated_empty by blast

section \<open>Rolling back a failed append of another buffer\<close>

text \<open>
  C1. The claim: when an append fails inside \<^verbatim>\<open>ringbuffer_append_ringbuffer\<close>, every
  element appended by the call is removed again, the call returns failure, and the
  destination has the count and the elements it had before the call.

  The code increments \<^verbatim>\<open>countAdded\<close> for the failed append too, so the rollback deletes
  one element more than the call has appended. Below, one allocator serves the whole run:
  it grants the two first blocks and refuses every later request. The destination holds
  1 to 8 in 8 slots, the source holds 9. The append of 9 needs a larger block and fails
  without changing the destination; the call returns \<open>- 1\<close>, yet the destination is left
  with 7 elements: its own last element 8 has been deleted and handed to
  \<^verbatim>\<open>json_decref\<close>.
\<close>

theorem append_ringbuffer_rollback_deletes_too_many:
  "(let dest = \<lparr>buffer_size = 8, start = 0, elementCount = 8,
                buffer = Some [Ptr (1::nat), Ptr 2, Ptr 3, Ptr 4, Ptr 5, Ptr 6, Ptr 7, Ptr 8]\<rparr>;
        src = \<lparr>buffer_size = 8, start = 0, elementCount = 1,
               buffer = Some [Ptr 9, Indeterminate, Indeterminate, Indeterminate,
                              Indeterminate, Indeterminate, Indeterminate, Indeterminate]\<rparr>;
        dest1 = \<lparr>buffer_size = 8, start = 0, elementCount = 7,
                 buffer = Some [Ptr 1, Ptr 2, Ptr 3, Ptr 4, Ptr 5, Ptr 6, Ptr 7, Ptr 8]\<rparr>;
        h = (\<lambda>_. empty_ringbuffer)(0 := dest, 1 := src)
    in client (\<lambda>k. k < 2) empty_ringbuffer
         [Append (Ptr 1), Append (Ptr 2), Append (Ptr 3), Append (Ptr 4),
          Append (Ptr 5), Append (Ptr 6), Append (Ptr 7), Append (Ptr 8)]
         = Some (Return (dest, \<lambda>k. k < 1, [0, 0, 0, 0, 0, 0, 0, 0]))
       \<and> client (\<lambda>k. k < 1) empty_ringbuffer [Append (Ptr 9)]
           = Some (Return (src, \<lambda>_. False, [0]))
       \<and> elements dest = [Return (Ptr 1), Return (Ptr 2), Return (Ptr 3), Return (Ptr 4),
                           Return (Ptr 5), Return (Ptr 6), Return (Ptr 7), Return (Ptr 8)]
       \<and> ringbuffer_append (\<lambda>_. False) dest (Ptr 9) = Some (Return (- 1, dest, \<lambda>_. False))
       \<and> ringbuffer_append_ringbuffer (\<lambda>_. False) h 0 1
           = Some (Return (- 1, h(0 := dest1), \<lambda>_. False, [Ptr 8]))
       \<and> elementCount dest1 = 7
       \<and> elements dest1 = [Return (Ptr 1), Return (Ptr 2), Return (Ptr 3), Return (Ptr 4),
                            Return (Ptr 5), Return (Ptr 6), Return (Ptr 7)])"
  by (simp add: run ringbuffer_append_ringbuffer_def append_loop.simps)

section \<open>The invariant of the data model\<close>

text \<open>
  C2. The claim: every operation, applied to a buffer that satisfies the invariant of the
  data model, leaves a buffer that satisfies it, the resizes inside the operations
  included.

  \<^verbatim>\<open>ringbuffer_resize\<close> does not move the elements into the smaller block, and it keeps
  \<open>start\<close>, when the elements do not wrap around in the old block. Below, nine appends
  and seven deletions of the first element lead to a buffer of capacity 16 with
  \<open>start = 7\<close> that holds 8 and 9 and satisfies the invariant. Deleting the first element
  once more returns 0 and shrinks the block to 8 slots: \<open>start\<close> is now 8, equal to the
  capacity, the invariant is broken, and the one element of the buffer is no longer 9
  but the stale pointer 1.
\<close>

theorem del_shrink_breaks_invariant:
  "(let rb = \<lparr>buffer_size = 16, start = 7, elementCount = 2,
              buffer = Some [Ptr (1::nat), Ptr 2, Ptr 3, Ptr 4, Ptr 5, Ptr 6, Ptr 7, Ptr 8, Ptr 9,
                             Indeterminate, Indeterminate, Indeterminate, Indeterminate,
                             Indeterminate, Indeterminate, Indeterminate]\<rparr>;
        rb1 = \<lparr>buffer_size = 8, start = 8, elementCount = 1,
               buffer = Some [Ptr 1, Ptr 2, Ptr 3, Ptr 4, Ptr 5, Ptr 6, Ptr 7, Ptr 8]\<rparr>
    in client (\<lambda>_. True) empty_ringbuffer
         [Append (Ptr 1), Append (Ptr 2), Append (Ptr 3), Append (Ptr 4), Append (Ptr 5),
          Append (Ptr 6), Append (Ptr 7), Append (Ptr 8), Append (Ptr 9),
          Del 0, Del 0, Del 0, Del 0, Del 0, Del 0, Del 0]
         = Some (Return (rb, \<lambda>_. True, [0, 0, 0, 0, 0, 0, 0, 0, 0, 0, 0, 0, 0, 0, 0, 0]))
       \<and> invariant rb
       \<and> elements rb = [Return (Ptr 8), Return (Ptr 9)]
       \<and> ringbuffer_del (\<lambda>_. True) rb 0 = Some (Return (0, rb1, \<lambda>_. True, [Ptr 8]))
       \<and> \<not> invariant rb1
       \<and> start rb1 = buffer_size rb1
       \<and> elements rb1 = [Return (Ptr 1)])"
  by (simp add: run)

section \<open>Insertion and deletion against the naive shift\<close>

text \<open>
  C3. The claim: for every buffer and every index in range, \<^verbatim>\<open>ringbuffer_insert\<close> and
  \<^verbatim>\<open>ringbuffer_del\<close> give the logical sequence that the naive shift of every element
  after the index gives.

  The backward loop of \<^verbatim>\<open>ringbuffer_move\<close> copies the block of
  \<^verbatim>\<open>resulting_count\<close> slots that starts at the two pointers, while the pointers stand
  on the last slots of the two ranges; and when a pointer reaches slot 0 the loop sends
  it to the slot before \<open>start\<close> without having moved the element in slot 0. Below, the
  buffer holds 1 to 5 in slots 0 to 4 of 8. Inserting 99 at index 3 returns 0 and gives
  1, 2, 3, 99, 5, 5 where the naive shift gives 1, 2, 3, 99, 4, 5. Deleting index 1 returns
  0 and gives a first element read from a slot that was never written, followed by
  3, 4, 5, where the naive shift gives 1, 3, 4, 5.
\<close>

theorem move_differs_from_naive_shift:
  "(let rb = \<lparr>buffer_size = 8, start = 0, elementCount = 5,
              buffer = Some [Ptr (1::nat), Ptr 2, Ptr 3, Ptr 4, Ptr 5,
                             Indeterminate, Indeterminate, Indeterminate]\<rparr>;
        rb1 = \<lparr>buffer_size = 8, start = 0, elementCount = 6,
               buffer = Some [Ptr 1, Ptr 2, Ptr 3, Ptr 99, Ptr 5, Ptr 5,
                              Indeterminate, Indeterminate]\<rparr>;
        rb2 = \<lparr>buffer_size = 8, start = 1, elementCount = 4,
               buffer = Some [Ptr 1, Indeterminate, Ptr 3, Ptr 4, Ptr 5,
                              Indeterminate, Indeterminate, Indeterminate]\<rparr>
    in client (\<lambda>_. True) empty_ringbuffer
         [Append (Ptr 1), Append (Ptr 2), Append (Ptr 3), Append (Ptr 4), Append (Ptr 5)]
         = Some (Return (rb, \<lambda>_. True, [0, 0, 0, 0, 0]))
       \<and> invariant rb
       \<and> elements rb =
           [Return (Ptr 1), Return (Ptr 2), Return (Ptr 3), Return (Ptr 4), Return (Ptr 5)]
       \<and> ringbuffer_insert (\<lambda>_. True) rb 3 (Ptr 99) = Some (Return (0, rb1, \<lambda>_. True))
       \<and> elements rb1 =
           [Return (Ptr 1), Return (Ptr 2), Return (Ptr 3), Return (Ptr 99), Return (Ptr 5),
            Return (Ptr 5)]
       \<and> naive_insert (elements rb) 3 (Return (Ptr 99)) =
           [Return (Ptr 1), Return (Ptr 2), Return (Ptr 3), Return (Ptr 99), Return (Ptr 4),
            Return (Ptr 5)]
       \<and> ringbuffer_del (\<lambda>_. True) rb 1 = Some (Return (0, rb2, \<lambda>_. True, [Ptr 2]))
       \<and> elements rb2 = [Return Indeterminate, Return (Ptr 3), Return (Ptr 4), Return (Ptr 5)]
       \<and> naive_del (elements rb) 1 =
           [Return (Ptr 1), Return (Ptr 3), Return (Ptr 4), Return (Ptr 5)])"
  by (simp add: run)

text \<open>
  The forward loop has a defect of its own: when a pointer reaches the end of the block
  it is sent to the slot of \<open>start\<close>, not to slot 0. Inserting 50 at index 2 into the
  buffer that holds 1 to 7 gives 2, 1, 50, 3, 4, 5, 6, 7; and deleting index 2 from a
  buffer that holds 6 to 10 in the slots 5, 6, 7, 0, 1 gives 10, 3, 9, 9. No slot that was
  never written is involved in either.
\<close>

lemma forward_wrap_differs_from_naive_shift:
  "(let rb = \<lparr>buffer_size = 8, start = 0, elementCount = 7,
              buffer = Some [Ptr (1::nat), Ptr 2, Ptr 3, Ptr 4, Ptr 5, Ptr 6, Ptr 7,
                             Indeterminate]\<rparr>;
        rb1 = \<lparr>buffer_size = 8, start = 7, elementCount = 8,
               buffer = Some [Ptr 1, Ptr 50, Ptr 3, Ptr 4, Ptr 5, Ptr 6, Ptr 7, Ptr 2]\<rparr>;
        wrapped = \<lparr>buffer_size = 8, start = 5, elementCount = 5,
                   buffer = Some [Ptr 9, Ptr 10, Ptr 3, Ptr 4, Ptr 5, Ptr 6, Ptr 7, Ptr 8]\<rparr>;
        wrapped1 = \<lparr>buffer_size = 8, start = 5, elementCount = 4,
                    buffer = Some [Ptr 9, Ptr 10, Ptr 3, Ptr 4, Ptr 5, Ptr 10, Ptr 3, Ptr 9]\<rparr>
    in client (\<lambda>_. True) empty_ringbuffer
         [Append (Ptr 1), Append (Ptr 2), Append (Ptr 3), Append (Ptr 4), Append (Ptr 5),
          Append (Ptr 6), Append (Ptr 7)]
         = Some (Return (rb, \<lambda>_. True, [0, 0, 0, 0, 0, 0, 0]))
       \<and> invariant rb
       \<and> ringbuffer_insert (\<lambda>_. True) rb 2 (Ptr 50) = Some (Return (0, rb1, \<lambda>_. True))
       \<and> elements rb1 =
           [Return (Ptr 2), Return (Ptr 1), Return (Ptr 50), Return (Ptr 3), Return (Ptr 4),
            Return (Ptr 5), Return (Ptr 6), Return (Ptr 7)]
       \<and> naive_insert (elements rb) 2 (Return (Ptr 50)) =
           [Return (Ptr 1), Return (Ptr 2), Return (Ptr 50), Return (Ptr 3), Return (Ptr 4),
            Return (Ptr 5), Return (Ptr 6), Return (Ptr 7)]
       \<and> client (\<lambda>_. True) empty_ringbuffer
           [Append (Ptr 1), Append (Ptr 2), Append (Ptr 3), Append (Ptr 4), Append (Ptr 5),
            Append (Ptr 6), Append (Ptr 7), Append (Ptr 8),
            Del 0, Del 0, Del 0, Del 0, Del 0, Append (Ptr 9), Append (Ptr 10)]
           = Some (Return (wrapped, \<lambda>_. True, [0, 0, 0, 0, 0, 0, 0, 0, 0, 0, 0, 0, 0, 0, 0]))
       \<and> invariant wrapped
       \<and> elements wrapped =
           [Return (Ptr 6), Return (Ptr 7), Return (Ptr 8), Return (Ptr 9), Return (Ptr 10)]
       \<and> ringbuffer_del (\<lambda>_. True) wrapped 2 = Some (Return (0, wrapped1, \<lambda>_. True, [Ptr 8]))
       \<and> elements wrapped1 = [Return (Ptr 10), Return (Ptr 3), Return (Ptr 9), Return (Ptr 9)]
       \<and> naive_del (elements wrapped) 2 =
           [Return (Ptr 6), Return (Ptr 7), Return (Ptr 9), Return (Ptr 10)])"
  by (simp add: run)

text \<open>
  The backward loop can also fail to end. With \<open>start = 1\<close>, a pointer that stands on
  slot 0 makes the body copy nothing and is sent to the slot before \<open>start\<close>, which is
  slot 0 again, while \<open>count\<close> stays as it is. Appending 1 to 8 and deleting the first
  element leads to such a buffer, and inserting at index 5 then never returns.
\<close>

lemma move_backward_stuck:
  assumes "move_backward rb pr pw c = Some y"
  shows "\<not> (buffer_size rb = 8 \<and> start rb = 1 \<and> slots rb = Some 8 \<and> pw = 0 \<and> pr = 7 \<and> c = 2)"
proof (rule move_backward.raw_induct
    [where P = "\<lambda>rb pr pw c y.
       \<not> (buffer_size rb = 8 \<and> start rb = 1 \<and> slots rb = Some 8 \<and> pw = 0 \<and> pr = 7 \<and> c = 2)",
     OF _ assms], goal_cases)
  case (1 f rb pr pw c y)
  show ?case
  proof
    assume s: "buffer_size rb = 8 \<and> start rb = 1 \<and> slots rb = Some 8 \<and> pw = 0 \<and> pr = 7 \<and> c = 2"
    then obtain xs where xs: "buffer rb = Some xs" "length xs = 8" by (auto simp: slots_def)
    with s have "backward_step rb pr pw c = Return (rb, 7, 0, 2)"
      by (simp add: backward_step_def memmove_def Let_def)
    with "1"(2) have "f rb 7 0 2 = Some y" by simp
    from "1"(1) [OF this] s show False by simp
  qed
qed

lemma insert_runs_forever:
  "(let rb = \<lparr>buffer_size = 8, start = 1, elementCount = 7,
              buffer = Some [Ptr (1::nat), Ptr 2, Ptr 3, Ptr 4, Ptr 5, Ptr 6, Ptr 7, Ptr 8]\<rparr>
    in client (\<lambda>_. True) empty_ringbuffer
         [Append (Ptr 1), Append (Ptr 2), Append (Ptr 3), Append (Ptr 4), Append (Ptr 5),
          Append (Ptr 6), Append (Ptr 7), Append (Ptr 8), Del 0]
         = Some (Return (rb, \<lambda>_. True, [0, 0, 0, 0, 0, 0, 0, 0, 0]))
       \<and> invariant rb
       \<and> ringbuffer_insert (\<lambda>_. True) rb 5 (Ptr 99) = None)"
proof -
  define rb :: "nat ringbuffer_t" where "rb = \<lparr>buffer_size = 8, start = 1, elementCount = 7,
              buffer = Some [Ptr (1::nat), Ptr 2, Ptr 3, Ptr 4, Ptr 5, Ptr 6, Ptr 7, Ptr 8]\<rparr>"
  have "move_backward rb 7 0 2 = None"
  proof (cases "move_backward rb 7 0 2")
    case None
    then show ?thesis .
  next
    case (Some y)
    from move_backward_stuck [OF this] show ?thesis by (simp add: rb_def slots_def)
  qed
  then have "ringbuffer_move rb 6 5 2 = None"
    by (simp add: ringbuffer_move_def rb_def)
  then have "ringbuffer_insert (\<lambda>_. True) rb 5 (Ptr 99) = None"
    by (simp add: ringbuffer_insert_def insert_place_def and_then_def rb_def)
  moreover have "client (\<lambda>_. True) empty_ringbuffer
         [Append (Ptr 1), Append (Ptr 2), Append (Ptr 3), Append (Ptr 4), Append (Ptr 5),
          Append (Ptr 6), Append (Ptr 7), Append (Ptr 8), Del 0]
         = Some (Return (rb, \<lambda>_. True, [0, 0, 0, 0, 0, 0, 0, 0, 0]))"
    by (simp add: run rb_def)
  moreover have "invariant rb" by (simp add: invariant_def rb_def RINGBUFFER_MIN_BUFFER_SIZE_def)
  ultimately show ?thesis by (simp add: rb_def)
qed

section \<open>Resizing there and back\<close>

text \<open>
  C4. The claim: for every buffer, a successful resize to another capacity followed by a
  successful resize back to the old capacity leaves every element as it was.

  Below, the allocator grants two requests and refuses the third, so the eighth deletion
  cannot shrink the block: the buffer has capacity 16, \<open>start = 8\<close>, satisfies the
  invariant and holds the one element 9. Resizing it to 8 slots succeeds and cuts off
  the slot of that element; resizing back to 16 slots succeeds too, and the one element
  of the buffer is now the stale pointer 1.
\<close>

theorem shrink_then_grow_loses_element:
  "(let rb = \<lparr>buffer_size = 16, start = 8, elementCount = 1,
              buffer = Some [Ptr (1::nat), Ptr 2, Ptr 3, Ptr 4, Ptr 5, Ptr 6, Ptr 7, Ptr 8, Ptr 9,
                             Indeterminate, Indeterminate, Indeterminate, Indeterminate,
                             Indeterminate, Indeterminate, Indeterminate]\<rparr>;
        rb1 = \<lparr>buffer_size = 8, start = 8, elementCount = 1,
               buffer = Some [Ptr 1, Ptr 2, Ptr 3, Ptr 4, Ptr 5, Ptr 6, Ptr 7, Ptr 8]\<rparr>;
        rb2 = \<lparr>buffer_size = 16, start = 16, elementCount = 1,
               buffer = Some [Ptr 1, Ptr 2, Ptr 3, Ptr 4, Ptr 5, Ptr 6, Ptr 7, Ptr 8,
                              Indeterminate, Indeterminate, Indeterminate, Indeterminate,
                              Indeterminate, Indeterminate, Indeterminate, Indeterminate]\<rparr>
    in client (\<lambda>k. k < 2) empty_ringbuffer
         [Append (Ptr 1), Append (Ptr 2), Append (Ptr 3), Append (Ptr 4), Append (Ptr 5),
          Append (Ptr 6), Append (Ptr 7), Append (Ptr 8), Append (Ptr 9),
          Del 0, Del 0, Del 0, Del 0, Del 0, Del 0, Del 0, Del 0]
         = Some (Return (rb, \<lambda>_. False, [0, 0, 0, 0, 0, 0, 0, 0, 0, 0, 0, 0, 0, 0, 0, 0, 0]))
       \<and> invariant rb
       \<and> elements rb = [Return (Ptr 9)]
       \<and> ringbuffer_resize (\<lambda>_. True) rb 8 = Return (0, rb1, \<lambda>_. True)
       \<and> ringbuffer_resize (\<lambda>_. True) rb1 16 = Return (0, rb2, \<lambda>_. True)
       \<and> elementCount rb2 = 1
       \<and> elements rb2 = [Return (Ptr 1)])"
  by (simp add: run)

text \<open>
  The other direction on the buffer of scenario A (capacity 8, \<open>start = 7\<close>, four elements,
  three of them in slots 0 to 2): growing to 16 slots moves the element of slot 7 to
  slot 15. Shrinking back to 8 slots reallocates first and then reads slot 15, outside
  the block it has just shrunk.
\<close>

lemma grow_then_shrink_reads_outside_block:
  "(let rb = \<lparr>buffer_size = 8, start = 7, elementCount = 4,
              buffer = Some [Ptr 99, Ptr 2, Ptr 3, Indeterminate, Indeterminate,
                             Indeterminate, Indeterminate, Ptr (1::nat)]\<rparr>;
        rb1 = \<lparr>buffer_size = 16, start = 15, elementCount = 4,
               buffer = Some [Ptr 99, Ptr 2, Ptr 3, Indeterminate, Indeterminate,
                              Indeterminate, Indeterminate, Ptr 1,
                              Indeterminate, Indeterminate, Indeterminate, Indeterminate,
                              Indeterminate, Indeterminate, Indeterminate, Ptr 1]\<rparr>
    in ringbuffer_resize (\<lambda>_. True) rb 16 = Return (0, rb1, \<lambda>_. True)
       \<and> elements rb1 = elements rb
       \<and> ringbuffer_resize (\<lambda>_. True) rb1 8 = Undefined)"
  by (simp add: run)

section \<open>Failures of an insertion\<close>

text \<open>
  C5. \<^verbatim>\<open>ringbuffer_insert\<close> with an index above the count returns \<open>- 1\<close> and leaves the
  buffer as it was. When the buffer is full and the allocator refuses the request, the
  call returns \<open>- 1\<close> and leaves the buffer as it was; the allocator has been asked once,
  or not at all when the doubled capacity has wrapped around to less than the count.
  Whenever the call returns, it has either returned \<open>- 1\<close> with the buffer unchanged, or
  it has returned 0, the index was in range, the count has grown by exactly one, and the
  capacity is the old one if the buffer was not full and otherwise twice the old one as
  \<^verbatim>\<open>size_t\<close> computes it, raised to the minimum 8 (which only matters for the capacity 0
  of a buffer without a block). Twice the old capacity is exact up to \<^verbatim>\<open>SIZE_MAX\<close>:
  lemma \<open>size_mul_exact\<close>.
\<close>

theorem ringbuffer_insert_failures:
  "(elementCount rb < index \<longrightarrow>
      ringbuffer_insert a rb index v = Some (Return (- 1, rb, a)))
   \<and> (index \<le> elementCount rb \<and> elementCount rb = buffer_size rb \<and> \<not> a 0 \<longrightarrow>
      ringbuffer_insert a rb index v = Some (Return (- 1, rb, \<lambda>k. a (Suc k))) \<or>
      ringbuffer_insert a rb index v = Some (Return (- 1, rb, a)))
   \<and> (ringbuffer_insert a rb index v = Some (Return (rc, rb', a')) \<longrightarrow>
      (rc = - 1 \<and> rb' = rb) \<or>
      (rc = 0 \<and> index \<le> elementCount rb \<and> elementCount rb' = elementCount rb + 1 \<and>
       buffer_size rb' =
         (if elementCount rb = buffer_size rb
          then max RINGBUFFER_MIN_BUFFER_SIZE (size_mul (buffer_size rb) 2)
          else buffer_size rb)))"
proof (intro conjI impI)
  assume "elementCount rb < index"
  then show "ringbuffer_insert a rb index v = Some (Return (- 1, rb, a))"
    by (simp add: ringbuffer_insert_def)
next
  assume h: "index \<le> elementCount rb \<and> elementCount rb = buffer_size rb \<and> \<not> a 0"
  define n where "n = size_mul (buffer_size rb) 2"
  have "ringbuffer_resize a rb n = Return (- 1, rb, \<lambda>k. a (Suc k)) \<or>
        ringbuffer_resize a rb n = Return (- 1, rb, a)"
  proof (cases "buffer rb")
    case None
    with h show ?thesis by (simp add: ringbuffer_resize_def jsonp_malloc_def Let_def)
  next
    case (Some xs)
    with h show ?thesis
      by (simp add: ringbuffer_resize_def jsonp_realloc_def Let_def)
  qed
  with h show "ringbuffer_insert a rb index v = Some (Return (- 1, rb, \<lambda>k. a (Suc k))) \<or>
      ringbuffer_insert a rb index v = Some (Return (- 1, rb, a))"
    by (auto simp: ringbuffer_insert_def n_def)
next
  assume "ringbuffer_insert a rb index v = Some (Return (rc, rb', a'))"
  from ringbuffer_insert_cases [OF this]
  show "(rc = - 1 \<and> rb' = rb) \<or>
      (rc = 0 \<and> index \<le> elementCount rb \<and> elementCount rb' = elementCount rb + 1 \<and>
       buffer_size rb' =
         (if elementCount rb = buffer_size rb
          then max RINGBUFFER_MIN_BUFFER_SIZE (size_mul (buffer_size rb) 2)
          else buffer_size rb))"
    by blast
qed

text \<open>
  The three cases on the full buffer that holds 1 to 8: index 9 is out of range; index 3
  with an allocator that refuses; index 8 with an allocator that grants.
\<close>

theorem ringbuffer_insert_failures_witness:
  "(let full = \<lparr>buffer_size = 8, start = 0, elementCount = 8,
                buffer = Some [Ptr (1::nat), Ptr 2, Ptr 3, Ptr 4, Ptr 5, Ptr 6, Ptr 7, Ptr 8]\<rparr>;
        grown = \<lparr>buffer_size = 16, start = 0, elementCount = 9,
                 buffer = Some [Ptr 1, Ptr 2, Ptr 3, Ptr 4, Ptr 5, Ptr 6, Ptr 7, Ptr 8, Ptr 9,
                                Indeterminate, Indeterminate, Indeterminate, Indeterminate,
                                Indeterminate, Indeterminate, Indeterminate]\<rparr>
    in elementCount full < 9
       \<and> ringbuffer_insert (\<lambda>_. True) full 9 (Ptr 9) = Some (Return (- 1, full, \<lambda>_. True))
       \<and> 3 \<le> elementCount full \<and> elementCount full = buffer_size full
       \<and> ringbuffer_insert (\<lambda>_. False) full 3 (Ptr 9) = Some (Return (- 1, full, \<lambda>_. False))
       \<and> ringbuffer_insert (\<lambda>_. True) full 8 (Ptr 9) = Some (Return (0, grown, \<lambda>_. True))
       \<and> elementCount grown = elementCount full + 1
       \<and> buffer_size grown = max RINGBUFFER_MIN_BUFFER_SIZE (buffer_size full * 2))"
  using
    ringbuffer_insert_failures
      [where rb = "\<lparr>buffer_size = 8, start = 0, elementCount = 8,
                buffer = Some [Ptr (1::nat), Ptr 2, Ptr 3, Ptr 4, Ptr 5, Ptr 6, Ptr 7, Ptr 8]\<rparr>"
         and index = 9 and a = "\<lambda>_. True" and v = "Ptr 9"]
    ringbuffer_insert_failures
      [where rb = "\<lparr>buffer_size = 8, start = 0, elementCount = 8,
                buffer = Some [Ptr (1::nat), Ptr 2, Ptr 3, Ptr 4, Ptr 5, Ptr 6, Ptr 7, Ptr 8]\<rparr>"
         and index = 3 and a = "\<lambda>_. False" and v = "Ptr 9"]
    ringbuffer_insert_failures
      [where rb = "\<lparr>buffer_size = 8, start = 0, elementCount = 8,
                buffer = Some [Ptr (1::nat), Ptr 2, Ptr 3, Ptr 4, Ptr 5, Ptr 6, Ptr 7, Ptr 8]\<rparr>"
         and index = 8 and a = "\<lambda>_. True" and v = "Ptr 9" and rc = 0
         and a' = "\<lambda>_. True"
         and rb' = "\<lparr>buffer_size = 16, start = 0, elementCount = 9,
                 buffer = Some [Ptr 1, Ptr 2, Ptr 3, Ptr 4, Ptr 5, Ptr 6, Ptr 7, Ptr 8, Ptr 9,
                                Indeterminate, Indeterminate, Indeterminate, Indeterminate,
                                Indeterminate, Indeterminate, Indeterminate]\<rparr>"]
  by (simp add: run)

section \<open>Growing a buffer that satisfies the invariant\<close>

text \<open>
  What \<^verbatim>\<open>memmove\<close> leaves in each slot, and the remainder of a number between \<open>n\<close>
  and \<open>2 * n\<close>.
\<close>

lemma memmove_Return:
  assumes "src + k \<le> length ys" "dst + k \<le> length ys"
  shows "memmove (Some ys) dst src k =
           Return (Some (take dst ys @ take k (drop src ys) @ drop (dst + k) ys))"
  using assms by (simp add: memmove_def)

lemma moved_nth:
  assumes "src + k \<le> length ys" "dst + k \<le> length ys" "j < length ys"
  shows "(take dst ys @ take k (drop src ys) @ drop (dst + k) ys) ! j =
           (if dst \<le> j \<and> j < dst + k then ys ! (src + (j - dst)) else ys ! j)"
proof -
  from assms have lA: "length (take dst ys) = dst" by simp
  from assms have lB: "length (take k (drop src ys)) = k" by simp
  consider (before) "j < dst" | (inside) "dst \<le> j" "j < dst + k" | (after) "dst + k \<le> j"
    by linarith
  then show ?thesis
  proof cases
    case before
    then show ?thesis by (simp add: nth_append lA del: length_take)
  next
    case inside
    then have "j - dst < k" by simp
    moreover from assms inside have "drop src ys ! (j - dst) = ys ! (src + (j - dst))"
      by (intro nth_drop) simp
    ultimately show ?thesis using inside by (simp add: nth_append lA lB del: length_take)
  next
    case after
    then have "\<not> j < dst" "\<not> j - dst < k" "dst + k + (j - dst - k) = j" by simp_all
    with after assms show ?thesis by (simp add: nth_append lA lB del: length_take)
  qed
qed

lemma moved_length:
  assumes "src + k \<le> length ys" "dst + k \<le> length ys"
  shows "length (take dst ys @ take k (drop src ys) @ drop (dst + k) ys) = length ys"
  using assms by simp

lemma mod_wrap:
  fixes a :: nat
  assumes "n \<le> a" "a < 2 * n"
  shows "a mod n = a - n"
  using assms by (simp add: le_mod_geq)

text \<open>
  Lines 153 to 175 on a block that has been reallocated to \<open>n\<close> slots, \<open>n\<close> not below
  the old capacity, for a buffer with \<open>start\<close> below the capacity and a count that does
  not exceed it: the relocation is defined, and the element with index \<open>i\<close> is found at
  its new slot. The three branches of the code are the three inner cases of the proof.
\<close>

lemma relocate_grow:
  assumes blk: "buffer rb = Some blk" "length blk = n"
    and sz: "0 < buffer_size rb" "buffer_size rb \<le> n"
    and st: "start rb < buffer_size rb"
    and cnt: "elementCount rb \<le> buffer_size rb"
    and i: "i < elementCount rb"
  shows "\<exists>ys st. resize_relocate rb n = Return (rb\<lparr>buffer := Some ys, start := st\<rparr>) \<and>
           length ys = n \<and> st < n \<and>
           ys ! ((st + i) mod n) = blk ! ((start rb + i) mod buffer_size rb)"
proof (cases "start rb > size_sub (buffer_size rb) (elementCount rb)")
  case False
  with cnt have fit: "start rb + elementCount rb \<le> buffer_size rb"
    by (simp add: size_sub_def)
  with i sz have "(start rb + i) mod n = start rb + i"
    "(start rb + i) mod buffer_size rb = start rb + i" by simp_all
  then have "blk ! ((start rb + i) mod n) = blk ! ((start rb + i) mod buffer_size rb)"
    by simp
  moreover from False blk
  have "resize_relocate rb n = Return (rb\<lparr>buffer := Some blk, start := start rb\<rparr>)"
    by (simp add: resize_relocate_def)
  moreover from st sz have "start rb < n" by simp
  ultimately show ?thesis using blk(2) by blast
next
  case True
  with cnt have wrapped: "buffer_size rb < start rb + elementCount rb"
    by (simp add: size_sub_def)
  define upper where "upper = buffer_size rb - start rb"
  define lower where "lower = start rb + elementCount rb - buffer_size rb"
  define growth where "growth = n - buffer_size rb"
  define p where "p = start rb + i"
  from st have upper_eq: "size_sub (buffer_size rb) (start rb) = upper"
    by (simp add: size_sub_def upper_def)
  from wrapped st cnt have lower_eq: "(start rb + elementCount rb) mod buffer_size rb = lower"
    unfolding lower_def by (intro mod_wrap) simp_all
  from sz have growth_eq: "size_sub n (buffer_size rb) = growth"
    by (simp add: size_sub_def growth_def)
  from st have upper_pos: "0 < upper" "upper \<le> buffer_size rb"
    "buffer_size rb - upper = start rb" "start rb + upper = buffer_size rb"
    by (simp_all add: upper_def)
  from cnt st wrapped have lower_le: "lower \<le> start rb" "lower < buffer_size rb"
    "buffer_size rb + lower = start rb + elementCount rb"
    by (simp_all add: lower_def)
  from i lower_le have p_lt: "p < buffer_size rb + lower" by (simp add: p_def)
  have p_ge: "start rb \<le> p" by (simp add: p_def)
  have old_low: "p mod buffer_size rb = p" if "p < buffer_size rb"
    using that by simp
  have old_high: "p mod buffer_size rb = p - buffer_size rb" if "\<not> p < buffer_size rb"
    using that p_lt lower_le by (intro mod_wrap) simp_all
  show ?thesis
  proof (cases "upper < lower")
    case up: True
    define d where "d = n - upper"
    define ys where "ys = take d blk @ take upper (drop (start rb) blk) @ drop (d + upper) blk"
    from upper_pos sz have d: "d + upper = n" "d < n" "d + i = p + (n - buffer_size rb)"
      by (simp_all add: d_def p_def upper_def)
    from upper_pos sz blk d have b: "start rb + upper \<le> length blk" "d + upper \<le> length blk"
      by simp_all
    from memmove_Return [OF b] have mm:
      "memmove (Some blk) (n - upper) (buffer_size rb - upper) upper = Return (Some ys)"
      by (simp add: ys_def d_def upper_pos)
    from upper_pos sz have nu: "\<not> n < upper" "size_sub n upper = d"
      by (simp_all add: size_sub_def d_def)
    from True up mm nu sz blk have rel:
      "resize_relocate rb n = Return (rb\<lparr>buffer := Some ys, start := d\<rparr>)"
      by (simp add: resize_relocate_def Let_def upper_eq lower_eq)
    from moved_length [OF b] blk have len: "length ys = n" by (simp add: ys_def)
    have "ys ! ((d + i) mod n) = blk ! (p mod buffer_size rb)"
    proof (cases "p < buffer_size rb")
      case low: True
      with d sz have q: "d + i < n" "d \<le> d + i" "d + i < d + upper" "start rb + (d + i - d) = p"
        by (simp_all add: p_def)
      then have "(d + i) mod n = d + i" by simp
      moreover from q blk have "d + i < length blk" by simp
      from moved_nth [OF b this] q have "ys ! (d + i) = blk ! p" by (simp add: ys_def)
      ultimately show ?thesis using old_low [OF low] by simp
    next
      case high: False
      define r where "r = p - buffer_size rb"
      from high d sz have ge: "n \<le> d + i" by simp
      from i cnt sz d have "d + i < 2 * n" by simp
      from mod_wrap [OF ge this] d high sz have q: "(d + i) mod n = r" by (simp add: r_def)
      have r: "r < n" "\<not> d \<le> r"
        using p_lt high lower_le upper_pos d sz unfolding r_def by linarith+
      with blk have "r < length blk" by simp
      from moved_nth [OF b this] r have "ys ! r = blk ! r" by (simp add: ys_def)
      with q old_high [OF high] show ?thesis by (simp add: r_def)
    qed
    then have "ys ! ((d + i) mod n) = blk ! ((start rb + i) mod buffer_size rb)"
      unfolding p_def .
    with rel len d(2) show ?thesis by blast
  next
    case notup: False
    have stn: "start rb < n" using st sz by simp
    show ?thesis
    proof (cases "lower > growth")
      case big: True
      define e where "e = lower - growth"
      define ys1 where "ys1 = take (buffer_size rb) blk @ take growth (drop 0 blk) @
                              drop (buffer_size rb + growth) blk"
      define ys2 where "ys2 = take 0 ys1 @ take e (drop growth ys1) @ drop (0 + e) ys1"
      from sz have g: "buffer_size rb + growth = n" by (simp add: growth_def)
      from sz blk g have b1: "0 + growth \<le> length blk" "buffer_size rb + growth \<le> length blk"
        by simp_all
      from moved_length [OF b1] blk have len1: "length ys1 = n" by (simp add: ys1_def)
      from big lower_le sz len1 have b2: "growth + e \<le> length ys1" "0 + e \<le> length ys1"
        by (simp_all add: e_def)
      from moved_length [OF b2] len1 have len2: "length ys2 = n" by (simp add: ys2_def)
      from memmove_Return [OF b1] have mm1:
        "memmove (Some blk) (buffer_size rb) 0 growth = Return (Some ys1)"
        by (simp add: ys1_def)
      from memmove_Return [OF b2] have mm2:
        "memmove (Some ys1) 0 growth (lower - growth) = Return (Some ys2)"
        by (simp add: ys2_def e_def)
      from True notup big sz mm1 mm2 blk have rel:
        "resize_relocate rb n = Return (rb\<lparr>buffer := Some ys2, start := start rb\<rparr>)"
        by (simp add: resize_relocate_def Let_def upper_eq lower_eq growth_eq)
      have n1_low: "ys1 ! j = blk ! j" if "j < buffer_size rb" for j
      proof -
        from that sz blk have "j < length blk" by simp
        from moved_nth [OF b1 this] that show ?thesis by (simp add: ys1_def)
      qed
      have n1_high: "ys1 ! (buffer_size rb + j) = blk ! j" if "j < growth" for j
      proof -
        from that g blk have "buffer_size rb + j < length blk" by simp
        from moved_nth [OF b1 this] that show ?thesis by (simp add: ys1_def)
      qed
      have n2_low: "ys2 ! j = ys1 ! (growth + j)" if "j < e" for j
      proof -
        from that b2 have "j < length ys1" by simp
        from moved_nth [OF b2 this] that show ?thesis by (simp add: ys2_def)
      qed
      have n2_high: "ys2 ! j = ys1 ! j" if "\<not> j < e" "j < n" for j
      proof -
        from that len1 have "j < length ys1" by simp
        from moved_nth [OF b2 this] that show ?thesis by (simp add: ys2_def)
      qed
      have "ys2 ! (p mod n) = blk ! (p mod buffer_size rb)"
      proof (cases "p < buffer_size rb")
        case low: True
        with sz have "p mod n = p" by simp
        moreover from lower_le p_ge have "\<not> p < e" by (simp add: e_def)
        moreover from low sz have "p < n" by simp
        ultimately show ?thesis using n2_high [of p] n1_low [OF low] old_low [OF low] by simp
      next
        case high: False
        define t where "t = p - buffer_size rb"
        from high have pt: "p = buffer_size rb + t" by (simp add: t_def)
        from p_lt high have tl: "t < lower" by (simp add: t_def)
        show ?thesis
        proof (cases "t < growth")
          case True
          with pt g have "p < n" by simp
          then have "p mod n = p" by simp
          moreover from pt lower_le have "\<not> p < e" by (simp add: e_def)
          ultimately have "ys2 ! (p mod n) = ys1 ! p" using n2_high [of p] \<open>p < n\<close> by simp
          also have "\<dots> = blk ! t" using n1_high [OF True] pt by simp
          finally show ?thesis using old_high [OF high] by (simp add: t_def)
        next
          case nf: False
          with pt g have ge: "n \<le> p" by simp
          from p_lt lower_le sz have "p < 2 * n" by simp
          from mod_wrap [OF ge this] pt g nf have idx: "p mod n = t - growth" by simp
          from tl nf have j: "t - growth < e" "growth + (t - growth) = t"
            by (simp_all add: e_def)
          from tl lower_le have "t < buffer_size rb" by simp
          from n2_low [OF j(1)] j(2) n1_low [OF this] have "ys2 ! (t - growth) = blk ! t"
            by simp
          with idx old_high [OF high] show ?thesis by (simp add: t_def)
        qed
      qed
      then have "ys2 ! ((start rb + i) mod n) = blk ! ((start rb + i) mod buffer_size rb)"
        unfolding p_def .
      with rel len2 stn show ?thesis by blast
    next
      case small: False
      define ys where "ys = take (buffer_size rb) blk @ take lower (drop 0 blk) @
                             drop (buffer_size rb + lower) blk"
      from small sz blk have b: "0 + lower \<le> length blk" "buffer_size rb + lower \<le> length blk"
        by (simp_all add: growth_def)
      from moved_length [OF b] blk have len: "length ys = n" by (simp add: ys_def)
      from memmove_Return [OF b] have mm:
        "memmove (Some blk) (buffer_size rb) 0 lower = Return (Some ys)"
        by (simp add: ys_def)
      from True notup small sz mm blk have rel:
        "resize_relocate rb n = Return (rb\<lparr>buffer := Some ys, start := start rb\<rparr>)"
        by (simp add: resize_relocate_def Let_def upper_eq lower_eq growth_eq)
      from p_lt b blk have lt: "p < n" by simp
      then have idx: "p mod n = p" by simp
      from lt blk have "p < length blk" by simp
      note nth = moved_nth [OF b this]
      have "ys ! p = blk ! (p mod buffer_size rb)"
      proof (cases "p < buffer_size rb")
        case low: True
        with nth have "ys ! p = blk ! p" by (simp add: ys_def)
        with old_low [OF low] show ?thesis by simp
      next
        case high: False
        with p_lt have "buffer_size rb \<le> p" "p < buffer_size rb + lower" by simp_all
        with nth have "ys ! p = blk ! (p - buffer_size rb)" by (simp add: ys_def)
        with old_high [OF high] show ?thesis by simp
      qed
      with idx have "ys ! (p mod n) = blk ! (p mod buffer_size rb)" by simp
      then have "ys ! ((start rb + i) mod n) = blk ! ((start rb + i) mod buffer_size rb)"
        unfolding p_def .
      with rel len stn show ?thesis by blast
    qed
  qed
qed

text \<open>
  Hence a successful resize to a capacity that is not smaller, and below \<open>2 ^ 61\<close>, keeps
  the count and every element of a buffer that satisfies the invariant and whose storage
  is in order, and leaves such a buffer.
\<close>

lemma resize_grow_preserves:
  assumes inv: "invariant rb" and wa: "well_allocated rb"
    and n: "buffer_size rb \<le> n" and fit: "n < 2 ^ 61"
    and rs: "ringbuffer_resize a rb n = Return (0, rb', a')"
    and i: "i < elementCount rb"
  shows "elementCount rb' = elementCount rb \<and> buffer_size rb' = n \<and> invariant rb' \<and>
         well_allocated rb' \<and> ringbuffer_get rb' i = ringbuffer_get rb i"
proof -
  from inv i have sz: "0 < buffer_size rb" "start rb < buffer_size rb"
    "RINGBUFFER_MIN_BUFFER_SIZE \<le> buffer_size rb" "elementCount rb \<le> buffer_size rb"
    by (auto simp: invariant_def split: if_splits)
  with wa obtain xs where xs: "buffer rb = Some xs" "length xs = buffer_size rb"
    by (auto simp: well_allocated_def split: option.splits)
  from sz n have m: "(if n < RINGBUFFER_MIN_BUFFER_SIZE then RINGBUFFER_MIN_BUFFER_SIZE else n) = n"
    "\<not> n < elementCount rb" by simp_all
  define blk where "blk = take n xs @ replicate (n - length xs) (Indeterminate :: 'a json_ptr)"
  define rb0 where "rb0 = rb\<lparr>buffer := Some blk\<rparr>"
  have len: "length blk = n" by (simp add: blk_def)
  from xs n have blk_old: "blk ! j = xs ! j" if "j < buffer_size rb" for j
    using that by (simp add: blk_def nth_append)
  from granted_exact [OF fit] have g: "size_mul n sizeof_json_ptr div sizeof_json_ptr = n"
    by (simp add: granted_def)
  from rs xs m obtain rb1 where
    rel: "resize_relocate rb0 n = Return rb1" and rb': "rb' = rb1\<lparr>buffer_size := n\<rparr>"
    by (auto simp: ringbuffer_resize_def jsonp_realloc_def Let_def blk_def rb0_def g
        split: if_splits outcome.splits)
  have rb0: "buffer rb0 = Some blk" "0 < buffer_size rb0" "buffer_size rb0 \<le> n"
    "start rb0 < buffer_size rb0" "elementCount rb0 \<le> buffer_size rb0" "i < elementCount rb0"
    using sz n i by (simp_all add: rb0_def)
  from relocate_grow [OF rb0(1) len rb0(2-6)] rel obtain ys st where
    rb1: "rb1 = rb0\<lparr>buffer := Some ys, start := st\<rparr>"
    and ys: "length ys = n" "st < n"
      "ys ! ((st + i) mod n) = blk ! ((start rb0 + i) mod buffer_size rb0)"
    by auto
  from sz have p: "(start rb + i) mod buffer_size rb < buffer_size rb" by simp
  from ys(3) blk_old [OF p] have nth: "ys ! ((st + i) mod n) = xs ! ((start rb + i) mod buffer_size rb)"
    by (simp add: rb0_def)
  from sz n have npos: "0 < n" by simp
  then have q: "(st + i) mod n < n" by simp
  from rb' rb1 have fields: "elementCount rb' = elementCount rb" "buffer_size rb' = n"
    "start rb' = st" "buffer rb' = Some ys"
    by (simp_all add: rb0_def)
  from fields ys sz n npos have "invariant rb'" "well_allocated rb'"
    by (simp_all add: invariant_def well_allocated_def)
  moreover from fields i npos q ys nth have "ringbuffer_get rb' i = Return (xs ! ((start rb + i) mod buffer_size rb))"
    by (simp add: ringbuffer_get_def slot_read_def)
  moreover from i sz xs p have "ringbuffer_get rb i = Return (xs ! ((start rb + i) mod buffer_size rb))"
    by (simp add: ringbuffer_get_def slot_read_def)
  ultimately show ?thesis using fields by simp
qed

section \<open>Growing a buffer whose elements wrap around\<close>

text \<open>
  C6. The claim: in every reachable buffer whose elements wrap around the end of the
  block, a successful growing resize leaves the count and every element as they were.

  Below, ten appends, nine deletions of the first element and seven appends, all
  returning 0, lead to a buffer of capacity 8 with \<open>start = 9\<close> (the ninth deletion has
  shrunk the block from 16 to 8 slots and kept \<open>start\<close>). It is full; its element 6 sits
  in slot 7 and its element 7 in slot 0. \<^verbatim>\<open>ringbuffer_insert\<close> would now call
  \<^verbatim>\<open>ringbuffer_resize\<close> with 16. That call succeeds and keeps the count, but computes
  \<^verbatim>\<open>buffer_size - start\<close> as a huge number, copies one slot and leaves \<open>start = 9\<close>:
  seven of the eight elements are afterwards read from slots that were never written.
\<close>

theorem grow_after_shrink_changes_elements:
  "(let rb = \<lparr>buffer_size = 8, start = 9, elementCount = 8,
              buffer = Some [Ptr 27, Ptr (2::nat), Ptr 21, Ptr 22, Ptr 23, Ptr 24, Ptr 25,
                             Ptr 26]\<rparr>;
        rb1 = \<lparr>buffer_size = 16, start = 9, elementCount = 8,
               buffer = Some [Ptr 27, Ptr 2, Ptr 21, Ptr 22, Ptr 23, Ptr 24, Ptr 25, Ptr 26,
                              Ptr 27, Indeterminate, Indeterminate, Indeterminate,
                              Indeterminate, Indeterminate, Indeterminate, Indeterminate]\<rparr>
    in client (\<lambda>_. True) empty_ringbuffer
         [Append (Ptr 1), Append (Ptr 2), Append (Ptr 3), Append (Ptr 4), Append (Ptr 5),
          Append (Ptr 6), Append (Ptr 7), Append (Ptr 8), Append (Ptr 9), Append (Ptr 10),
          Del 0, Del 0, Del 0, Del 0, Del 0, Del 0, Del 0, Del 0, Del 0,
          Append (Ptr 21), Append (Ptr 22), Append (Ptr 23), Append (Ptr 24), Append (Ptr 25),
          Append (Ptr 26), Append (Ptr 27)]
         = Some (Return (rb, \<lambda>_. True, replicate 26 0))
       \<and> (start rb + 6) mod buffer_size rb = 7
       \<and> (start rb + 7) mod buffer_size rb = 0
       \<and> elements rb = [Return (Ptr 2), Return (Ptr 21), Return (Ptr 22), Return (Ptr 23),
                         Return (Ptr 24), Return (Ptr 25), Return (Ptr 26), Return (Ptr 27)]
       \<and> ringbuffer_resize (\<lambda>_. True) rb 16 = Return (0, rb1, \<lambda>_. True)
       \<and> elementCount rb1 = 8
       \<and> elements rb1 = [Return Indeterminate, Return Indeterminate, Return Indeterminate,
                          Return Indeterminate, Return Indeterminate, Return Indeterminate,
                          Return Indeterminate, Return (Ptr 27)])"
  by (simp add: run)

section \<open>The capacity over the life of a buffer\<close>

text \<open>
  C7. The claim: the first insertion into a buffer as \<^verbatim>\<open>ringbuffer_init\<close> leaves it
  allocates the minimum capacity 8; an insertion into a full buffer doubles the capacity;
  a deletion that makes the count fall below an eighth of the capacity halves the
  capacity, but never to less than 8.

  The halving goes through \<^verbatim>\<open>ringbuffer_resize\<close>, which has the block reallocated to the
  smaller size first and relocates afterwards. When the elements wrap around the end of
  the old block, the relocation reads the upper elements from slots that the block no
  longer has. Below, seventeen appends, thirteen deletions of the last element, an
  insertion at index 0 and one more deletion of the last element, all returning 0, lead
  to a buffer of capacity 32 with \<open>start = 31\<close> that satisfies the invariant and holds
  99, 1, 2, 3. Deleting its last element leaves 3 elements, fewer than an eighth of 32,
  so the block is reallocated to 16 slots; the \<^verbatim>\<open>memmove\<close> that follows reads slot 31.
  The behaviour of the call is undefined: no buffer of capacity 16 comes out of it.
\<close>

theorem del_shrink_leaves_block:
  "(let rb = \<lparr>buffer_size = 32, start = 31, elementCount = 4,
              buffer = Some [Ptr (1::nat), Ptr 2, Ptr 3, Ptr 4, Ptr 5, Ptr 6, Ptr 7, Ptr 8,
                             Ptr 9, Ptr 10, Ptr 11, Ptr 12, Ptr 13, Ptr 14, Ptr 15, Ptr 16,
                             Ptr 17, Indeterminate, Indeterminate, Indeterminate,
                             Indeterminate, Indeterminate, Indeterminate, Indeterminate,
                             Indeterminate, Indeterminate, Indeterminate, Indeterminate,
                             Indeterminate, Indeterminate, Indeterminate, Ptr 99]\<rparr>
    in client (\<lambda>_. True) empty_ringbuffer
         [Append (Ptr 1), Append (Ptr 2), Append (Ptr 3), Append (Ptr 4), Append (Ptr 5),
          Append (Ptr 6), Append (Ptr 7), Append (Ptr 8), Append (Ptr 9), Append (Ptr 10),
          Append (Ptr 11), Append (Ptr 12), Append (Ptr 13), Append (Ptr 14),
          Append (Ptr 15), Append (Ptr 16), Append (Ptr 17),
          Del 16, Del 15, Del 14, Del 13, Del 12, Del 11, Del 10, Del 9, Del 8, Del 7,
          Del 6, Del 5, Del 4, Insert 0 (Ptr 99), Del 4]
         = Some (Return (rb, \<lambda>_. True, replicate 32 0))
       \<and> invariant rb
       \<and> elements rb = [Return (Ptr 99), Return (Ptr 1), Return (Ptr 2), Return (Ptr 3)]
       \<and> elementCount rb - 1 < buffer_size rb div 8
       \<and> ringbuffer_resize (\<lambda>_. True) (rb\<lparr>elementCount := 3\<rparr>) (buffer_size rb div 2)
           = Undefined
       \<and> ringbuffer_del (\<lambda>_. True) rb 3 = Some Undefined)"
  by (simp add: run)

text \<open>
  Whenever the calls return, the capacities are those of the claim: with an allocator
  that grants the request, the first insertion allocates 8 slots; an insertion that
  returns 0 on a full buffer of capacity at least 8 doubles the capacity, as long as
  twice the capacity fits into \<^verbatim>\<open>size_t\<close>; a deletion that returns 0 and leaves fewer
  elements than an eighth of the capacity sets the capacity to half of it, but not below
  8. And whatever the allocator does, a deletion that returns never takes the capacity
  of a buffer from 8 or more to less than 8.
\<close>

lemma capacity_policy_on_return:
  "(a 0 \<longrightarrow>
      ringbuffer_insert a (ringbuffer_init rb0) 0 v =
        Some (Return (0,
          \<lparr>buffer_size = RINGBUFFER_MIN_BUFFER_SIZE, start = 0, elementCount = 1,
            buffer = Some (v # replicate 7 Indeterminate)\<rparr>,
          \<lambda>k. a (Suc k))))
   \<and> (ringbuffer_insert a rb index v = Some (Return (0, rb', a')) \<and>
        elementCount rb = buffer_size rb \<and> RINGBUFFER_MIN_BUFFER_SIZE \<le> buffer_size rb \<and>
        buffer_size rb * 2 \<le> SIZE_MAX \<longrightarrow>
      buffer_size rb' = 2 * buffer_size rb)
   \<and> (ringbuffer_del a rb index = Some (Return (0, rb', a', released)) \<and>
        elementCount rb - 1 < buffer_size rb div 8 \<and> a 0 \<longrightarrow>
      buffer_size rb' = max RINGBUFFER_MIN_BUFFER_SIZE (buffer_size rb div 2))
   \<and> (ringbuffer_del a rb index = Some (Return (rc, rb', a', released)) \<and>
        RINGBUFFER_MIN_BUFFER_SIZE \<le> buffer_size rb \<longrightarrow>
      RINGBUFFER_MIN_BUFFER_SIZE \<le> buffer_size rb')"
proof (intro conjI impI)
  assume "a 0"
  then show "ringbuffer_insert a (ringbuffer_init rb0) 0 v =
        Some (Return (0,
          \<lparr>buffer_size = RINGBUFFER_MIN_BUFFER_SIZE, start = 0, elementCount = 1,
            buffer = Some (v # replicate 7 Indeterminate)\<rparr>,
          \<lambda>k. a (Suc k)))"
    by (simp add: run)
next
  assume h: "ringbuffer_insert a rb index v = Some (Return (0, rb', a')) \<and>
        elementCount rb = buffer_size rb \<and> RINGBUFFER_MIN_BUFFER_SIZE \<le> buffer_size rb \<and>
        buffer_size rb * 2 \<le> SIZE_MAX"
  then have "ringbuffer_insert a rb index v = Some (Return (0, rb', a'))"
    and "size_mul (buffer_size rb) 2 = buffer_size rb * 2"
    by (simp_all add: size_mul_exact)
  with ringbuffer_insert_cases [OF this(1)] h show "buffer_size rb' = 2 * buffer_size rb"
    by (simp add: max_def)
next
  assume h: "ringbuffer_del a rb index = Some (Return (0, rb', a', released)) \<and>
        elementCount rb - 1 < buffer_size rb div 8 \<and> a 0"
  then have "ringbuffer_del a rb index = Some (Return (0, rb', a', released))" by simp
  from ringbuffer_del_cases [OF this] h
  show "buffer_size rb' = max RINGBUFFER_MIN_BUFFER_SIZE (buffer_size rb div 2)"
    by auto
next
  assume h: "ringbuffer_del a rb index = Some (Return (rc, rb', a', released)) \<and>
        RINGBUFFER_MIN_BUFFER_SIZE \<le> buffer_size rb"
  then have "ringbuffer_del a rb index = Some (Return (rc, rb', a', released))" by simp
  from ringbuffer_del_cases [OF this] h
  show "RINGBUFFER_MIN_BUFFER_SIZE \<le> buffer_size rb'"
    by auto
qed

section \<open>Scenario A\<close>

text \<open>
  C8. Starting from the buffer as \<^verbatim>\<open>ringbuffer_init\<close> leaves it, with an allocator that
  grants every request, appending the values 1, 2, 3 in this order and then calling
  \<^verbatim>\<open>ringbuffer_insert\<close> with index 1 and value 99 makes all four calls return 0 and
  yields a buffer with \<open>elementCount = 4\<close> in which \<^verbatim>\<open>ringbuffer_get\<close> returns
  1, 99, 2, 3 for the indices 0 to 3.
\<close>

theorem scenario_A:
  "(let rb = \<lparr>buffer_size = 8, start = 7, elementCount = 4,
              buffer = Some [Ptr 99, Ptr 2, Ptr 3, Indeterminate, Indeterminate,
                             Indeterminate, Indeterminate, Ptr (1::nat)]\<rparr>
    in client (\<lambda>_. True) empty_ringbuffer
         [Append (Ptr 1), Append (Ptr 2), Append (Ptr 3), Insert 1 (Ptr 99)]
         = Some (Return (rb, \<lambda>_. True, [0, 0, 0, 0]))
       \<and> elementCount rb = 4
       \<and> elements rb = [Return (Ptr 1), Return (Ptr 99), Return (Ptr 2), Return (Ptr 3)])"
  by (simp add: run)

section \<open>Replacing an element\<close>

text \<open>
  C9. \<^verbatim>\<open>ringbuffer_set\<close> with an index that is not below the count returns \<open>- 1\<close>,
  hands nothing to \<^verbatim>\<open>json_decref\<close> and leaves the buffer as it was. With an index
  below the count, on a buffer whose storage is in order, it returns 0, hands exactly the
  element that \<^verbatim>\<open>ringbuffer_get\<close> returned for this index to \<^verbatim>\<open>json_decref\<close>, and
  leaves a buffer with the same capacity, \<open>start\<close> and count in which
  \<^verbatim>\<open>ringbuffer_get\<close> returns the new value for this index and what it returned before
  for every other index.
\<close>

theorem ringbuffer_set_frame:
  "(elementCount rb \<le> index \<longrightarrow> ringbuffer_set rb index v = Return (- 1, rb, []))
   \<and> (index < elementCount rb \<and> well_allocated rb \<longrightarrow>
        (\<exists>old rb'.
           ringbuffer_get rb index = Return old \<and>
           ringbuffer_set rb index v = Return (0, rb', [old]) \<and>
           buffer_size rb' = buffer_size rb \<and> start rb' = start rb \<and>
           elementCount rb' = elementCount rb \<and>
           ringbuffer_get rb' index = Return v \<and>
           (\<forall>j. j \<noteq> index \<longrightarrow> ringbuffer_get rb' j = ringbuffer_get rb j)))"
proof (intro conjI impI)
  assume "elementCount rb \<le> index"
  then show "ringbuffer_set rb index v = Return (- 1, rb, [])"
    by (simp add: ringbuffer_set_def)
next
  assume h: "index < elementCount rb \<and> well_allocated rb"
  then have pos: "0 < buffer_size rb" and le: "elementCount rb \<le> buffer_size rb"
    by (auto simp: well_allocated_def)
  with h obtain xs where xs: "buffer rb = Some xs" "length xs = buffer_size rb"
    by (auto simp: well_allocated_def split: option.splits)
  define p where "p = (start rb + index) mod buffer_size rb"
  from pos xs have p: "p < length xs" by (simp add: p_def)
  define rb' where "rb' = rb\<lparr>buffer := Some (xs[p := v])\<rparr>"
  from h pos xs p have get: "ringbuffer_get rb index = Return (xs ! p)"
    by (simp add: ringbuffer_get_def slot_read_def p_def)
  from h pos xs p have set: "ringbuffer_set rb index v = Return (0, rb', [xs ! p])"
    by (simp add: ringbuffer_set_def slot_read_def slot_write_def p_def rb'_def Let_def)
  from h pos xs p have get': "ringbuffer_get rb' index = Return v"
    by (simp add: ringbuffer_get_def slot_read_def p_def rb'_def)
  have others: "ringbuffer_get rb' j = ringbuffer_get rb j" if "j \<noteq> index" for j
  proof (cases "j < elementCount rb")
    case False
    then show ?thesis by (simp add: ringbuffer_get_def rb'_def)
  next
    case True
    with h le have "j < buffer_size rb" "index < buffer_size rb" by simp_all
    with that mod_add_inj [of j "buffer_size rb" index "start rb"]
    have "(start rb + j) mod buffer_size rb \<noteq> p" by (auto simp: p_def)
    with True pos xs show ?thesis
      by (simp add: ringbuffer_get_def slot_read_def rb'_def)
  qed
  have "buffer_size rb' = buffer_size rb" "start rb' = start rb"
    "elementCount rb' = elementCount rb"
    by (simp_all add: rb'_def)
  with get set get' others
  show "\<exists>old rb'.
           ringbuffer_get rb index = Return old \<and>
           ringbuffer_set rb index v = Return (0, rb', [old]) \<and>
           buffer_size rb' = buffer_size rb \<and> start rb' = start rb \<and>
           elementCount rb' = elementCount rb \<and>
           ringbuffer_get rb' index = Return v \<and>
           (\<forall>j. j \<noteq> index \<longrightarrow> ringbuffer_get rb' j = ringbuffer_get rb j)"
    by blast
qed

text \<open>Index 4 and index 2 on the buffer of scenario A.\<close>

theorem ringbuffer_set_frame_witness:
  "(let rb = \<lparr>buffer_size = 8, start = 7, elementCount = 4,
              buffer = Some [Ptr 99, Ptr 2, Ptr 3, Indeterminate, Indeterminate,
                             Indeterminate, Indeterminate, Ptr (1::nat)]\<rparr>;
        rb1 = \<lparr>buffer_size = 8, start = 7, elementCount = 4,
               buffer = Some [Ptr 99, Ptr 50, Ptr 3, Indeterminate, Indeterminate,
                              Indeterminate, Indeterminate, Ptr 1]\<rparr>
    in elementCount rb \<le> 4
       \<and> ringbuffer_set rb 4 (Ptr 50) = Return (- 1, rb, [])
       \<and> 2 < elementCount rb \<and> well_allocated rb
       \<and> ringbuffer_get rb 2 = Return (Ptr 2)
       \<and> ringbuffer_set rb 2 (Ptr 50) = Return (0, rb1, [Ptr 2])
       \<and> ringbuffer_get rb1 2 = Return (Ptr 50)
       \<and> ringbuffer_get rb1 0 = ringbuffer_get rb 0
       \<and> ringbuffer_get rb1 0 = Return (Ptr 1))"
  using
    ringbuffer_set_frame
      [where rb = "\<lparr>buffer_size = 8, start = 7, elementCount = 4,
              buffer = Some [Ptr 99, Ptr 2, Ptr 3, Indeterminate, Indeterminate,
                             Indeterminate, Indeterminate, Ptr (1::nat)]\<rparr>"
         and index = 4 and v = "Ptr 50"]
    ringbuffer_set_frame
      [where rb = "\<lparr>buffer_size = 8, start = 7, elementCount = 4,
              buffer = Some [Ptr 99, Ptr 2, Ptr 3, Indeterminate, Indeterminate,
                             Indeterminate, Indeterminate, Ptr (1::nat)]\<rparr>"
         and index = 2 and v = "Ptr 50"]
  by (simp add: run well_allocated_def)

section \<open>Termination of appending another buffer\<close>




end
